theory Spec2Isabelle
  imports Complex_Main "HOL-Library.Word"
begin

section \<open>Numbers, points and faults\<close>

text \<open>
  The program is TypeScript; its numbers are IEEE doubles. They are modelled as real
  numbers: every arithmetic operation is the exact one, so rounding error is not part of
  the model. Doubles also have the values NaN and Infinity, which the reals lack. They
  arise in this code from a division by zero only, so every division of the source is
  guarded in the model: where the divisor is zero the model stops with \<open>NonFinite\<close>
  instead of computing with HOL's \<open>a / 0 = 0\<close>. The other faults mark JavaScript
  behaviour that the HOL types cannot hold either: an array with holes (a write past the
  end of an array), a property read on \<open>undefined\<close> (a read past the end of an array of
  points, then \<open>.x\<close>), and the \<open>IndexSizeError\<close> that \<open>createImageData\<close> raises for an
  empty canvas. \<open>NotEnabled\<close> is not a fault of the program: it says that the user
  interface cannot produce the event in that state.
\<close>

datatype fault = NonFinite | SparseArray | TypeError | IndexSizeError | NotEnabled

text \<open>\<open>interface Point { x: number; y: number }\<close>. The fields are called \<open>px\<close> and \<open>py\<close>
  here, so that \<open>x\<close> and \<open>y\<close> stay free for variables.\<close>

record Point =
  px :: real
  py :: real

section \<open>The corner-point editor (ImageCropper)\<close>

text \<open>What the editor reads of the loaded \<open>HTMLImageElement\<close>: \<open>image.width\<close> and
  \<open>image.height\<close>.\<close>

record Img =
  img_width :: nat
  img_height :: nat

text \<open>What the editor reads of \<open>containerRef.current\<close>: \<open>clientWidth\<close>, \<open>clientHeight\<close>
  and the \<open>left\<close> and \<open>top\<close> of \<open>getBoundingClientRect()\<close>.\<close>

record Container =
  clientWidth :: nat
  clientHeight :: nat
  rect_left :: real
  rect_top :: real

text \<open>The state \<open>displayedImgDims\<close>: \<open>{ width, height, left, top, scale }\<close>.\<close>

record Dims =
  d_width :: real
  d_height :: real
  d_left :: real
  d_top :: real
  d_scale :: real

text \<open>One call of \<open>handleProcessAndSave\<close> that passed its guard: it first waits for the
  50 ms timer, holding the \<open>originalPoints\<close> it computed, and then runs
  \<open>warpPerspective\<close> on them.\<close>

datatype job = Sleeping "Point list" | Warping "Point list"

text \<open>
  The component's state. \<open>image\<close>, \<open>points\<close>, \<open>displayedImgDims\<close>,
  \<open>draggingPointIndex\<close> and \<open>isProcessing\<close> are the five \<open>useState\<close> cells.
  \<open>listener\<close> is the \<open>resize\<close> listener that the second effect installed, if any: the
  closure \<open>updateLayout\<close>, which is determined by the \<open>points\<close> and the \<open>image\<close> of the
  render in which the effect ran. \<open>jobs\<close> are the calls of \<open>handleProcessAndSave\<close> that
  are past the guard and not yet settled.
\<close>

record Editor =
  image :: "Img option"
  points :: "Point list"
  displayedImgDims :: Dims
  draggingPointIndex :: "nat option"
  isProcessing :: bool
  listener :: "(Point list \<times> Img) option"
  jobs :: "job list"

definition init :: Editor where
  "init = \<lparr> image = None, points = [],
            displayedImgDims = \<lparr> d_width = 0, d_height = 0, d_left = 0, d_top = 0, d_scale = 1 \<rparr>,
            draggingPointIndex = None, isProcessing = False, listener = None, jobs = [] \<rparr>"

text \<open>
  \<open>updateLayout\<close> (lines 41 to 84). It is a closure of the effect: \<open>closure_points\<close> and
  \<open>closure_image\<close> are the values of \<open>points\<close> and \<open>image\<close> in the render in which the
  effect ran, while \<open>containerRef.current\<close> is read when the function runs. The two
  \<open>set...\<close> calls write the state; \<open>setPoints\<close> is reached only when the captured
  \<open>points\<close> is empty.
\<close>

definition updateLayout :: "Point list \<Rightarrow> Container option \<Rightarrow> Img option \<Rightarrow> Editor \<Rightarrow> fault + Editor" where
  "updateLayout closure_points containerRef closure_image st =
     (case containerRef of
        None \<Rightarrow> Inr st
      | Some container \<Rightarrow>
     (case closure_image of
        None \<Rightarrow> Inr st
      | Some img \<Rightarrow>
          (let cWidth = real (clientWidth container);
               cHeight = real (clientHeight container);
               padding = 40;
               availWidth = cWidth - padding * 2;
               availHeight = cHeight - padding * 2
           in if img_height img = 0 \<or> availHeight = 0 then Inl NonFinite
              else
                (let imgAspect = real (img_width img) / real (img_height img);
                     containerAspect = availWidth / availHeight
                 in if imgAspect > containerAspect \<and> imgAspect = 0 then Inl NonFinite
                    else
                      (let displayWidth = (if imgAspect > containerAspect then availWidth
                                           else availHeight * imgAspect);
                           displayHeight = (if imgAspect > containerAspect then availWidth / imgAspect
                                            else availHeight);
                           left = (cWidth - displayWidth) / 2;
                           top = (cHeight - displayHeight) / 2
                       in if displayWidth = 0 then Inl NonFinite
                          else Inr (st \<lparr> displayedImgDims :=
                                          \<lparr> d_width = displayWidth, d_height = displayHeight,
                                            d_left = left, d_top = top,
                                            d_scale = real (img_width img) / displayWidth \<rparr>,
                                        points :=
                                          (if length closure_points = 0
                                           then [\<lparr> px = 0, py = 0 \<rparr>,
                                                 \<lparr> px = displayWidth, py = 0 \<rparr>,
                                                 \<lparr> px = displayWidth, py = displayHeight \<rparr>,
                                                 \<lparr> px = 0, py = displayHeight \<rparr>]
                                           else points st) \<rparr>))))))"

text \<open>
  The second effect (lines 38 to 89), run by React after the render in which \<open>image\<close>
  changed to \<open>img\<close>: the previous listener is removed by the cleanup, then the effect
  returns early without a container, and otherwise calls \<open>updateLayout\<close> once and installs it
  as the \<open>resize\<close> listener. The closure captures the \<open>points\<close> of that render, which
  are the points of the state before \<open>updateLayout\<close> runs.
\<close>

definition imageLoaded :: "Img \<Rightarrow> Container option \<Rightarrow> Editor \<Rightarrow> fault + Editor" where
  "imageLoaded img containerRef st =
     (case containerRef of
        None \<Rightarrow> Inr (st \<lparr> image := Some img, listener := None \<rparr>)
      | Some container \<Rightarrow>
          (case updateLayout (points st) (Some container) (Some img) (st \<lparr> image := Some img \<rparr>) of
             Inl e \<Rightarrow> Inl e
           | Inr st' \<Rightarrow> Inr (st' \<lparr> listener := Some (points st, img) \<rparr>)))"

text \<open>A \<open>resize\<close> event of the window runs the installed listener, if there is one.\<close>

definition resize :: "Container option \<Rightarrow> Editor \<Rightarrow> fault + Editor" where
  "resize containerRef st =
     (case listener st of
        None \<Rightarrow> Inr st
      | Some (closure_points, closure_image) \<Rightarrow>
          updateLayout closure_points containerRef (Some closure_image) st)"

definition handleMouseDown :: "nat \<Rightarrow> Editor \<Rightarrow> Editor" where
  "handleMouseDown index st = st \<lparr> draggingPointIndex := Some index \<rparr>"

text \<open>
  \<open>handleMove\<close> (lines 102 to 123); \<open>clientX\<close> and \<open>clientY\<close> are the result of
  \<open>getClientPos\<close>. The write \<open>newPoints[draggingPointIndex] = { x, y }\<close> past the end of
  the array would leave holes in it.
\<close>

definition handleMove :: "real \<Rightarrow> real \<Rightarrow> Container option \<Rightarrow> Editor \<Rightarrow> fault + Editor" where
  "handleMove clientX clientY containerRef st =
     (case draggingPointIndex st of
        None \<Rightarrow> Inr st
      | Some i \<Rightarrow>
     (case containerRef of
        None \<Rightarrow> Inr st
      | Some container \<Rightarrow>
          (let x = clientX - rect_left container - d_left (displayedImgDims st);
               y = clientY - rect_top container - d_top (displayedImgDims st)
           in if i < length (points st)
              then Inr (st \<lparr> points := (points st) [i := \<lparr> px = x, py = y \<rparr>] \<rparr>)
              else Inl SparseArray)))"

definition handleEnd :: "Editor \<Rightarrow> Editor" where
  "handleEnd st = st \<lparr> draggingPointIndex := None \<rparr>"

definition resetPoints :: "Editor \<Rightarrow> Editor" where
  "resetPoints st =
     st \<lparr> points := [\<lparr> px = 0, py = 0 \<rparr>,
                     \<lparr> px = d_width (displayedImgDims st), py = 0 \<rparr>,
                     \<lparr> px = d_width (displayedImgDims st), py = d_height (displayedImgDims st) \<rparr>,
                     \<lparr> px = 0, py = d_height (displayedImgDims st) \<rparr>] \<rparr>"

text \<open>
  \<open>handleProcessAndSave\<close> up to its first \<open>await\<close> (lines 138 to 151): the guard, the
  flag, the conversion of the points to image coordinates, and the start of the timer.
\<close>

definition handleProcessAndSave :: "Editor \<Rightarrow> Editor" where
  "handleProcessAndSave st =
     (if isProcessing st then st
      else (let scale = d_scale (displayedImgDims st);
                originalPoints = map (\<lambda>p. \<lparr> px = px p * scale, py = py p * scale \<rparr>) (points st)
            in st \<lparr> isProcessing := True, jobs := jobs st @ [Sleeping originalPoints] \<rparr>))"

text \<open>The rest of \<open>handleProcessAndSave\<close>: the timer fires and \<open>warpPerspective\<close> starts
  (line 152); the promise resolves and \<open>onSave\<close> is called (line 153); the promise rejects
  and the \<open>catch\<close> block resets the flag (lines 154 to 158).\<close>

definition timerFired :: "nat \<Rightarrow> Editor \<Rightarrow> fault + Editor" where
  "timerFired k st =
     (if k < length (jobs st)
      then (case jobs st ! k of
              Sleeping ps \<Rightarrow> Inr (st \<lparr> jobs := (jobs st) [k := Warping ps] \<rparr>)
            | Warping ps \<Rightarrow> Inl NotEnabled)
      else Inl NotEnabled)"

definition warpResolved :: "nat \<Rightarrow> Editor \<Rightarrow> fault + Editor" where
  "warpResolved k st =
     (if k < length (jobs st)
      then (case jobs st ! k of
              Sleeping ps \<Rightarrow> Inl NotEnabled
            | Warping ps \<Rightarrow> Inr (st \<lparr> jobs := take k (jobs st) @ drop (Suc k) (jobs st) \<rparr>))
      else Inl NotEnabled)"

definition warpRejected :: "nat \<Rightarrow> Editor \<Rightarrow> fault + Editor" where
  "warpRejected k st =
     (if k < length (jobs st)
      then (case jobs st ! k of
              Sleeping ps \<Rightarrow> Inl NotEnabled
            | Warping ps \<Rightarrow> Inr (st \<lparr> jobs := take k (jobs st) @ drop (Suc k) (jobs st),
                                       isProcessing := False \<rparr>))
      else Inl NotEnabled)"

text \<open>
  The events of a session. A handle is rendered for each element of \<open>points\<close>, inside
  \<open>{image && ...}\<close>, so \<open>MouseDown i\<close> needs an image and \<open>i\<close> below the number of
  points. The handlers other than the \<open>resize\<close> listener are created anew by each render,
  so they read the current state.
\<close>

datatype event =
    ImageLoaded Img "Container option"
  | Resize "Container option"
  | MouseDown nat
  | Move real real "Container option"
  | End
  | Reset
  | Confirm
  | TimerFired nat
  | WarpResolved nat
  | WarpRejected nat

fun fire :: "event \<Rightarrow> Editor \<Rightarrow> fault + Editor" where
  "fire (ImageLoaded img c) st = imageLoaded img c st"
| "fire (Resize c) st = resize c st"
| "fire (MouseDown i) st =
     (if image st \<noteq> None \<and> i < length (points st) then Inr (handleMouseDown i st)
      else Inl NotEnabled)"
| "fire (Move clientX clientY c) st = handleMove clientX clientY c st"
| "fire End st = Inr (handleEnd st)"
| "fire Reset st = Inr (resetPoints st)"
| "fire Confirm st = Inr (handleProcessAndSave st)"
| "fire (TimerFired k) st = timerFired k st"
| "fire (WarpResolved k) st = warpResolved k st"
| "fire (WarpRejected k) st = warpRejected k st"

fun run :: "event list \<Rightarrow> Editor \<Rightarrow> fault + Editor" where
  "run [] st = Inr st"
| "run (e # es) st = (case fire e st of Inl f \<Rightarrow> Inl f | Inr st' \<Rightarrow> run es st')"

inductive reachable :: "Editor \<Rightarrow> bool" where
  reachable_init: "reachable init"
| reachable_fire: "reachable st \<Longrightarrow> fire e st = Inr st' \<Longrightarrow> reachable st'"

section \<open>The perspective resampler (perspectiveUtils)\<close>

subsection \<open>Loops\<close>

text \<open>\<open>for (let i = i0; i < n; i++) body\<close>, on a state \<open>s\<close> that the body updates.\<close>

function for_loop :: "nat \<Rightarrow> nat \<Rightarrow> (nat \<Rightarrow> 's \<Rightarrow> 's) \<Rightarrow> 's \<Rightarrow> 's" where
  "for_loop i n body s = (if i < n then for_loop (Suc i) n body (body i s) else s)"
  by pat_completeness auto
termination
  by (relation "measure (\<lambda>(i, n, body, s). n - i)") auto

declare for_loop.simps [simp del]

subsection \<open>The homography solve\<close>

text \<open>
  The elimination loop of \<open>getHomographyMatrix\<close> (lines 25 to 43), from row \<open>i\<close> on: the
  search for the pivot row, the two swaps, and for each row \<open>j\<close> below \<open>i\<close> the factor,
  the update of \<open>b[j]\<close> and the update of \<open>a[j][k]\<close> for \<open>k\<close> from \<open>i\<close>. The rows of \<open>a\<close>
  are distinct arrays, so the update of row \<open>j\<close> in place is the update of the \<open>j\<close>-th
  element of the list. The division \<open>a[j][i] / a[i][i]\<close> is made once for each row below
  \<open>i\<close>, with the same divisor, which the loop does not change: the guard stands before
  the loop and applies when there is a row below \<open>i\<close>.
\<close>

function eliminate :: "nat \<Rightarrow> nat \<Rightarrow> real list list \<Rightarrow> real list \<Rightarrow> fault + (real list list \<times> real list)" where
  "eliminate i n a b =
     (if i < n
      then (let pivot = for_loop (i + 1) n
                          (\<lambda>j pivot. if \<bar>a ! j ! i\<bar> > \<bar>a ! pivot ! i\<bar> then j else pivot) i;
                a1 = a [i := a ! pivot, pivot := a ! i];
                b1 = b [i := b ! pivot, pivot := b ! i]
            in if i + 1 < n \<and> a1 ! i ! i = 0 then Inl NonFinite
               else (case for_loop (i + 1) n
                            (\<lambda>j (a, b).
                               (let factor = a ! j ! i / a ! i ! i;
                                    b' = b [j := b ! j - factor * b ! i];
                                    a' = for_loop i n
                                           (\<lambda>k a. a [j := (a ! j) [k := a ! j ! k - factor * a ! i ! k]]) a
                                in (a', b')))
                            (a1, b1) of
                       (a2, b2) \<Rightarrow> eliminate (i + 1) n a2 b2))
      else Inr (a, b))"
  by pat_completeness auto
termination
  by (relation "measure (\<lambda>(i, n, a, b). n - i)") auto

declare eliminate.simps [simp del]

text \<open>
  The back-substitution loop (lines 46 to 52), \<open>for (let i = n - 1; i >= 0; i--)\<close>: the
  first argument is \<open>i + 1\<close>, so that the loop ends when it is 0.
\<close>

fun backSubstitute :: "nat \<Rightarrow> nat \<Rightarrow> real list list \<Rightarrow> real list \<Rightarrow> real list \<Rightarrow> fault + real list" where
  "backSubstitute 0 n a b x = Inr x"
| "backSubstitute (Suc i) n a b x =
     (let sum = for_loop (i + 1) n (\<lambda>j sum. sum + a ! i ! j * x ! j) 0
      in if a ! i ! i = 0 then Inl NonFinite
         else backSubstitute i n a b (x [i := (b ! i - sum) / a ! i ! i]))"

text \<open>
  \<open>getHomographyMatrix\<close> (lines 7 to 55). \<open>src[i].x\<close> raises a \<open>TypeError\<close> when the list
  has no element \<open>i\<close>.
\<close>

definition getHomographyMatrix :: "Point list \<Rightarrow> Point list \<Rightarrow> fault + real list" where
  "getHomographyMatrix src dst =
     (if length src < 4 \<or> length dst < 4 then Inl TypeError
      else (case for_loop 0 4
                   (\<lambda>i (a, b).
                      (let x = px (src ! i);
                           y = py (src ! i);
                           X = px (dst ! i);
                           Y = py (dst ! i)
                       in (a @ [[x, y, 1, 0, 0, 0, - x * X, - y * X]]
                             @ [[0, 0, 0, x, y, 1, - x * Y, - y * Y]],
                           b @ [X] @ [Y])))
                   ([], []) of
              (a, b) \<Rightarrow>
                (let n = 8
                 in (case eliminate 0 n a b of
                       Inl e \<Rightarrow> Inl e
                     | Inr (a', b') \<Rightarrow>
                         (case backSubstitute n n a' b' (replicate n 0) of
                            Inl e \<Rightarrow> Inl e
                          | Inr x \<Rightarrow> Inr (x @ [1]))))))"

subsection \<open>Resampling\<close>

text \<open>The decoded source image of \<open>warpPerspective\<close>: \<open>img.width\<close>, \<open>img.height\<close> and the
  bytes \<open>sData\<close> that \<open>getImageData\<close> returns for it, four for each pixel, row by row.\<close>

record SrcImage = Img +
  sData :: "8 word list"

text \<open>The destination \<open>dstData\<close> handed to \<open>putImageData\<close>: its size and its bytes
  (\<open>dData\<close> in the source). The JPEG encoding that follows is not part of the model.\<close>

record DstImage =
  dst_width :: nat
  dst_height :: nat
  dst_data :: "8 word list"

text \<open>A read \<open>sData[i]\<close> of the \<open>Uint8ClampedArray\<close>: \<open>undefined\<close> past the end.\<close>

definition rd :: "8 word list \<Rightarrow> nat \<Rightarrow> real option" where
  "rd xs i = (if i < length xs then Some (real (unat (xs ! i))) else None)"

text \<open>The conversion of a number stored into a \<open>Uint8ClampedArray\<close>: clamped to 0 and
  255, and rounded to the nearest integer, a tie to the even one.\<close>

definition toUint8Clamp :: "real \<Rightarrow> 8 word" where
  "toUint8Clamp v =
     (if v \<le> 0 then 0
      else if v \<ge> 255 then 255
      else (let f = \<lfloor>v\<rfloor>
            in if real_of_int f + 1 / 2 < v then word_of_int (f + 1)
               else if v < real_of_int f + 1 / 2 then word_of_int f
               else if even f then word_of_int f
               else word_of_int (f + 1)))"

text \<open>
  The body of the pixel loop (lines 113 to 151) for the destination pixel \<open>(x, y)\<close>. With
  \<open>w = 0\<close> the two quotients are NaN or infinite in JavaScript and the bounds test is
  false. An operand \<open>undefined\<close> makes the interpolated value NaN, which is stored as 0.
  A write past the end of \<open>dData\<close> is ignored by the typed array, as it is by the list
  update.
\<close>

definition pixelStep :: "SrcImage \<Rightarrow> real list \<Rightarrow> nat \<Rightarrow> nat \<Rightarrow> nat \<Rightarrow> 8 word list \<Rightarrow> 8 word list" where
  "pixelStep img h width y x dData =
     (let u = h ! 0 * real x + h ! 1 * real y + h ! 2;
          v = h ! 3 * real x + h ! 4 * real y + h ! 5;
          w = h ! 6 * real x + h ! 7 * real y + h ! 8
      in if w = 0 then dData
         else
           (let srcX = u / w;
                srcY = v / w
            in if srcX \<ge> 0 \<and> srcX < real (img_width img) - 1
                  \<and> srcY \<ge> 0 \<and> srcY < real (img_height img) - 1
               then
                 (let x0 = nat \<lfloor>srcX\<rfloor>;
                      x1 = x0 + 1;
                      y0 = nat \<lfloor>srcY\<rfloor>;
                      y1 = y0 + 1;
                      wx = srcX - real x0;
                      wy = srcY - real y0;
                      srcIdx00 = (y0 * img_width img + x0) * 4;
                      srcIdx10 = (y0 * img_width img + x1) * 4;
                      srcIdx01 = (y1 * img_width img + x0) * 4;
                      srcIdx11 = (y1 * img_width img + x1) * 4;
                      dstIdx = (y * width + x) * 4;
                      dData1 = for_loop 0 3
                        (\<lambda>c dData.
                           dData [dstIdx + c :=
                             (case (rd (sData img) (srcIdx00 + c), rd (sData img) (srcIdx10 + c),
                                    rd (sData img) (srcIdx01 + c), rd (sData img) (srcIdx11 + c)) of
                                (Some val00, Some val10, Some val01, Some val11) \<Rightarrow>
                                  (let top = val00 * (1 - wx) + val10 * wx;
                                       bottom = val01 * (1 - wx) + val11 * wx
                                   in toUint8Clamp (top * (1 - wy) + bottom * wy))
                              | _ \<Rightarrow> 0)])
                        dData
                  in dData1 [dstIdx + 3 := 255])
               else dData))"

text \<open>The destination corners \<open>dstPts\<close> (lines 77 to 82), in the order TL, TR, BR, BL.\<close>

definition dstPts :: "nat \<Rightarrow> nat \<Rightarrow> Point list" where
  "dstPts width height =
     [\<lparr> px = 0, py = 0 \<rparr>,
      \<lparr> px = real width, py = 0 \<rparr>,
      \<lparr> px = real width, py = real height \<rparr>,
      \<lparr> px = 0, py = real height \<rparr>]"

text \<open>
  The destination dimensions (lines 65 to 72): the lengths of the four edges of the
  quadrilateral, and the floors of the larger width and of the larger height.
  \<open>Math.floor\<close> of a number that is not negative is a natural number.
\<close>

definition destinationSize :: "Point list \<Rightarrow> nat \<times> nat" where
  "destinationSize corners =
     (let topWidth = sqrt ((px (corners ! 1) - px (corners ! 0))\<^sup>2 + (py (corners ! 1) - py (corners ! 0))\<^sup>2);
          bottomWidth = sqrt ((px (corners ! 2) - px (corners ! 3))\<^sup>2 + (py (corners ! 2) - py (corners ! 3))\<^sup>2);
          leftHeight = sqrt ((px (corners ! 3) - px (corners ! 0))\<^sup>2 + (py (corners ! 3) - py (corners ! 0))\<^sup>2);
          rightHeight = sqrt ((px (corners ! 2) - px (corners ! 1))\<^sup>2 + (py (corners ! 2) - py (corners ! 1))\<^sup>2);
          width = nat \<lfloor>max topWidth bottomWidth\<rfloor>;
          height = nat \<lfloor>max leftHeight rightHeight\<rfloor>
      in (width, height))"

text \<open>
  \<open>warpPerspective\<close> (lines 61 to 161) for an image that has loaded, with both canvas
  contexts available. \<open>corners[1].x\<close> raises a \<open>TypeError\<close> for a list of fewer than four
  points. \<open>getHomographyMatrix\<close> (line 87) does not raise in JavaScript, so for an empty
  destination the first exception is the \<open>IndexSizeError\<close> of \<open>createImageData\<close> (line
  105), whatever the matrix is. \<open>createImageData\<close> returns transparent black pixels.
\<close>

definition warpPerspective :: "SrcImage \<Rightarrow> Point list \<Rightarrow> fault + DstImage" where
  "warpPerspective img corners =
     (if length corners < 4 then Inl TypeError
      else
        (case destinationSize corners of
           (width, height) \<Rightarrow>
             (let srcPts = corners
              in if width = 0 \<or> height = 0 then Inl IndexSizeError
                 else
                   (case getHomographyMatrix (dstPts width height) srcPts of
                      Inl e \<Rightarrow> Inl e
                    | Inr h \<Rightarrow>
                        Inr \<lparr> dst_width = width, dst_height = height,
                              dst_data = for_loop 0 height
                                (\<lambda>y dData. for_loop 0 width (\<lambda>x dData. pixelStep img h width y x dData) dData)
                                (replicate (width * height * 4) 0) \<rparr>))))"

subsection \<open>The vocabulary of the claims\<close>

text \<open>The Euclidean distance of two points.\<close>

definition distance :: "Point \<Rightarrow> Point \<Rightarrow> real" where
  "distance p q = sqrt ((px p - px q)\<^sup>2 + (py p - py q)\<^sup>2)"

text \<open>The homogeneous source coordinate \<open>(u, v, w)\<close> of the destination pixel \<open>(x, y)\<close>
  under the matrix \<open>h\<close>.\<close>

definition mapped :: "real list \<Rightarrow> real \<Rightarrow> real \<Rightarrow> real \<times> real \<times> real" where
  "mapped h x y =
     (h ! 0 * x + h ! 1 * y + h ! 2, h ! 3 * x + h ! 4 * y + h ! 5, h ! 6 * x + h ! 7 * y + h ! 8)"

text \<open>The destination pixel \<open>(x, y)\<close> is sampled: its source position passes the bounds
  test of line 122.\<close>

definition sampled :: "SrcImage \<Rightarrow> real list \<Rightarrow> nat \<Rightarrow> nat \<Rightarrow> bool" where
  "sampled img h x y =
     (case mapped h (real x) (real y) of
        (u, v, w) \<Rightarrow>
          w \<noteq> 0 \<and> 0 \<le> u / w \<and> u / w < real (img_width img) - 1
          \<and> 0 \<le> v / w \<and> v / w < real (img_height img) - 1)"

text \<open>The byte that the loop over \<open>c\<close> stores for channel \<open>c\<close> at the source position
  \<open>(srcX, srcY)\<close>.\<close>

definition bilinear :: "SrcImage \<Rightarrow> real \<Rightarrow> real \<Rightarrow> nat \<Rightarrow> 8 word" where
  "bilinear img srcX srcY c =
     (let x0 = nat \<lfloor>srcX\<rfloor>;
          y0 = nat \<lfloor>srcY\<rfloor>;
          wx = srcX - real x0;
          wy = srcY - real y0
      in (case (rd (sData img) ((y0 * img_width img + x0) * 4 + c),
                rd (sData img) ((y0 * img_width img + (x0 + 1)) * 4 + c),
                rd (sData img) (((y0 + 1) * img_width img + x0) * 4 + c),
                rd (sData img) (((y0 + 1) * img_width img + (x0 + 1)) * 4 + c)) of
            (Some val00, Some val10, Some val01, Some val11) \<Rightarrow>
              toUint8Clamp ((val00 * (1 - wx) + val10 * wx) * (1 - wy)
                            + (val01 * (1 - wx) + val11 * wx) * wy)
          | _ \<Rightarrow> 0))"

text \<open>The four bytes of the destination pixel \<open>(x, y)\<close> in a buffer of the given width.\<close>

definition block :: "nat \<Rightarrow> nat \<Rightarrow> nat \<Rightarrow> nat set" where
  "block width y x = {(y * width + x) * 4 ..< (y * width + x) * 4 + 4}"

subsection \<open>Non-degenerate corner sets\<close>

text \<open>Three points lie on one line: the cross product of the two vectors from the first
  point vanishes.\<close>

definition collinear3 :: "Point \<Rightarrow> Point \<Rightarrow> Point \<Rightarrow> bool" where
  "collinear3 p q r = ((px q - px p) * (py r - py p) - (px r - px p) * (py q - py p) = 0)"

text \<open>A Corner Set is non-degenerate: it has four points, no three of them on one line.\<close>

definition nondegenerate :: "Point list \<Rightarrow> bool" where
  "nondegenerate corners =
     (length corners = 4
      \<and> \<not> collinear3 (corners ! 0) (corners ! 1) (corners ! 2)
      \<and> \<not> collinear3 (corners ! 0) (corners ! 1) (corners ! 3)
      \<and> \<not> collinear3 (corners ! 0) (corners ! 2) (corners ! 3)
      \<and> \<not> collinear3 (corners ! 1) (corners ! 2) (corners ! 3))"

subsection \<open>Definitions used in the proofs\<close>

text \<open>The linear system that \<open>getHomographyMatrix\<close> builds (lines 8 to 21): the result
  of its first loop.\<close>

definition equations :: "Point list \<Rightarrow> Point list \<Rightarrow> real list list \<times> real list" where
  "equations src dst =
     for_loop 0 4
       (\<lambda>i (a, b).
          (let x = px (src ! i);
               y = py (src ! i);
               X = px (dst ! i);
               Y = py (dst ! i)
           in (a @ [[x, y, 1, 0, 0, 0, - x * X, - y * X]]
                 @ [[0, 0, 0, x, y, 1, - x * Y, - y * Y]],
               b @ [X] @ [Y])))
       ([], [])"

text \<open>The pivot row that the search of lines 26 to 31 finds for column \<open>i\<close>.\<close>

definition pivot_row :: "nat \<Rightarrow> nat \<Rightarrow> real list list \<Rightarrow> nat" where
  "pivot_row i n a = for_loop (i + 1) n (\<lambda>j pivot. if \<bar>a ! j ! i\<bar> > \<bar>a ! pivot ! i\<bar> then j else pivot) i"

text \<open>The row that the loop over \<open>k\<close> (lines 39 to 41) leaves in place of \<open>row\<close>,
  when it has run up to \<open>m\<close>.\<close>

definition row_minus :: "nat \<Rightarrow> nat \<Rightarrow> real \<Rightarrow> real list \<Rightarrow> real list \<Rightarrow> real list" where
  "row_minus i m factor prow row =
     map (\<lambda>k. if i \<le> k \<and> k < m then row ! k - factor * prow ! k else row ! k) [0..<length row]"

text \<open>The matrix and the right-hand side after the rows \<open>i < r < m\<close> are reduced by
  row \<open>i\<close> (the loop over \<open>j\<close>, lines 36 to 42, when it has run up to \<open>m\<close>).\<close>

definition reduced_a :: "nat \<Rightarrow> nat \<Rightarrow> nat \<Rightarrow> real list list \<Rightarrow> real list list" where
  "reduced_a i m n a =
     map (\<lambda>r. if i < r \<and> r < m then row_minus i n (a ! r ! i / a ! i ! i) (a ! i) (a ! r) else a ! r)
       [0..<length a]"

definition reduced_b :: "nat \<Rightarrow> nat \<Rightarrow> real list list \<Rightarrow> real list \<Rightarrow> real list" where
  "reduced_b i m a b =
     map (\<lambda>r. if i < r \<and> r < m then b ! r - (a ! r ! i / a ! i ! i) * b ! i else b ! r)
       [0..<length b]"

text \<open>The product of a matrix row with a vector \<open>y\<close>; \<open>y\<close> satisfies every equation
  of the system \<open>a\<close>, \<open>t * b\<close> (the system itself for \<open>t = 1\<close>, the homogeneous one
  for \<open>t = 0\<close>); the system has \<open>n\<close> rows and columns.\<close>

definition row_dot :: "nat \<Rightarrow> real list \<Rightarrow> (nat \<Rightarrow> real) \<Rightarrow> real" where
  "row_dot n r y = (\<Sum>k<n. r ! k * y k)"

definition solves :: "nat \<Rightarrow> real list list \<Rightarrow> real list \<Rightarrow> (nat \<Rightarrow> real) \<Rightarrow> real \<Rightarrow> bool" where
  "solves n a b y t = (\<forall>r<n. row_dot n (a ! r) y = t * b ! r)"

definition wf_system :: "nat \<Rightarrow> real list list \<Rightarrow> real list \<Rightarrow> bool" where
  "wf_system n a b = (length a = n \<and> length b = n \<and> (\<forall>r<n. length (a ! r) = n))"

text \<open>The invariants of the elimination before step \<open>i\<close>: the columns before \<open>i\<close> are
  zero below the diagonal, and the pivots of the steps before \<open>i\<close> that divided are
  not zero.\<close>

definition lower_zero :: "nat \<Rightarrow> nat \<Rightarrow> real list list \<Rightarrow> bool" where
  "lower_zero n i a = (\<forall>r<n. \<forall>k<n. k < i \<and> k < r \<longrightarrow> a ! r ! k = 0)"

definition diag_nonzero :: "nat \<Rightarrow> nat \<Rightarrow> real list list \<Rightarrow> bool" where
  "diag_nonzero n i a = (\<forall>r<n. r < i \<and> r + 1 < n \<longrightarrow> a ! r ! r \<noteq> 0)"

text \<open>The bytes of row \<open>y\<close> of the destination, and the inner loop of the resampling.\<close>

definition row_block :: "nat \<Rightarrow> nat \<Rightarrow> nat set" where
  "row_block width y = {y * width * 4 ..< y * width * 4 + width * 4}"

definition rowLoop :: "SrcImage \<Rightarrow> real list \<Rightarrow> nat \<Rightarrow> nat \<Rightarrow> 8 word list \<Rightarrow> 8 word list" where
  "rowLoop img h width y d = for_loop 0 width (\<lambda>x dData. pixelStep img h width y x dData) d"

text \<open>The matrix of the identity transform.\<close>

definition identity_matrix :: "real list" where
  "identity_matrix = [1, 0, 0, 0, 1, 0, 0, 0, 1]"

text \<open>The invariant of the sessions: the corner list is empty or has four points, a drag
  is bound to an index of the list, at most one call of \<open>handleProcessAndSave\<close> is past its
  guard, and the flag is set while there is one.\<close>

definition editor_inv :: "Editor \<Rightarrow> bool" where
  "editor_inv st =
     ((length (points st) = 0 \<or> length (points st) = 4)
      \<and> (draggingPointIndex st = None \<or> the (draggingPointIndex st) < length (points st))
      \<and> length (jobs st) \<le> 1
      \<and> (jobs st = [] \<or> isProcessing st))"

text \<open>A session used to run the editor on: a 400 by 200 image in a container of 880 by 680
  pixels, which is later resized to 480 by 380, and the state of that session after the
  image has loaded and the pointer went down on the first handle.\<close>

definition container_880x680 :: Container where
  "container_880x680 = \<lparr> clientWidth = 880, clientHeight = 680, rect_left = 0, rect_top = 0 \<rparr>"

definition container_480x380 :: Container where
  "container_480x380 = \<lparr> clientWidth = 480, clientHeight = 380, rect_left = 0, rect_top = 0 \<rparr>"

definition image_400x200 :: Img where
  "image_400x200 = \<lparr> img_width = 400, img_height = 200 \<rparr>"

definition dragging_state :: Editor where
  "dragging_state =
     \<lparr> image = Some image_400x200,
       points = [\<lparr> px = 0, py = 0 \<rparr>, \<lparr> px = 800, py = 0 \<rparr>, \<lparr> px = 800, py = 400 \<rparr>, \<lparr> px = 0, py = 400 \<rparr>],
       displayedImgDims = \<lparr> d_width = 800, d_height = 400, d_left = 40, d_top = 140, d_scale = 1 / 2 \<rparr>,
       draggingPointIndex = Some 0, isProcessing = False,
       listener = Some ([], image_400x200), jobs = [] \<rparr>"

text \<open>The images and the corner set that the resampler is run on: a 3 by 3 image whose
  byte \<open>i\<close> is \<open>i\<close>, a white opaque 2 by 2 image, and a trapezoid with a top edge of
  length 4, a bottom edge of length 2 and sides of length \<open>sqrt 10\<close>.\<close>

definition gradient_3x3 :: SrcImage where
  "gradient_3x3 = \<lparr> img_width = 3, img_height = 3, sData = map word_of_nat [0..<36] \<rparr>"

definition white_2x2 :: SrcImage where
  "white_2x2 = \<lparr> img_width = 2, img_height = 2, sData = replicate 16 255 \<rparr>"

definition trapezoid :: "Point list" where
  "trapezoid = [\<lparr> px = 0, py = 0 \<rparr>, \<lparr> px = 4, py = 0 \<rparr>, \<lparr> px = 3, py = 3 \<rparr>, \<lparr> px = 1, py = 3 \<rparr>]"

text \<open>A flat corner set: a rectangle 100 wide and one half high. No three of its corners
  are on one line, and its height is floored to 0.\<close>

definition strip :: "Point list" where
  "strip = [\<lparr> px = 0, py = 0 \<rparr>, \<lparr> px = 100, py = 0 \<rparr>, \<lparr> px = 100, py = 1 / 2 \<rparr>, \<lparr> px = 0, py = 1 / 2 \<rparr>]"

section \<open>Properties of the editor\<close>

subsection \<open>The invariant\<close>

lemma updateLayout_frame:
  assumes "updateLayout cp c im st = Inr st'"
  shows "(points st' = points st \<or> length (points st') = 4)
         \<and> draggingPointIndex st' = draggingPointIndex st
         \<and> jobs st' = jobs st \<and> isProcessing st' = isProcessing st
         \<and> image st' = image st \<and> listener st' = listener st"
  using assms
  by (auto simp: updateLayout_def Let_def split: option.splits if_splits)

lemma editor_inv_updateLayout:
  assumes "editor_inv st" "updateLayout cp c im st = Inr st'"
  shows "editor_inv st'"
  using updateLayout_frame [OF assms(2)] assms(1)
  by (auto simp: editor_inv_def)

lemma editor_inv_fire:
  assumes "editor_inv st" "fire e st = Inr st'"
  shows "editor_inv st'"
proof (cases e)
  case (ImageLoaded img c)
  show ?thesis
  proof (cases c)
    case None
    with ImageLoaded assms show ?thesis
      by (auto simp: imageLoaded_def editor_inv_def)
  next
    case (Some cc)
    with ImageLoaded assms obtain s1 where
      s1: "updateLayout (points st) (Some cc) (Some img) (st \<lparr> image := Some img \<rparr>) = Inr s1"
      and st': "st' = s1 \<lparr> listener := Some (points st, img) \<rparr>"
      by (auto simp: imageLoaded_def split: sum.splits)
    have "editor_inv (st \<lparr> image := Some img \<rparr>)"
      using assms(1) by (simp add: editor_inv_def)
    from editor_inv_updateLayout [OF this s1] show ?thesis
      by (simp add: st' editor_inv_def)
  qed
next
  case (Resize c)
  with assms show ?thesis
    by (auto simp: resize_def split: option.splits intro: editor_inv_updateLayout)
next
  case (MouseDown i)
  with assms show ?thesis
    by (auto simp: handleMouseDown_def editor_inv_def split: if_splits)
next
  case (Move cx cy c)
  with assms show ?thesis
    by (auto simp: handleMove_def editor_inv_def Let_def split: option.splits if_splits)
next
  case End
  with assms show ?thesis
    by (auto simp: handleEnd_def editor_inv_def)
next
  case Reset
  with assms show ?thesis
    by (auto simp: resetPoints_def editor_inv_def)
next
  case Confirm
  with assms show ?thesis
    by (auto simp: handleProcessAndSave_def editor_inv_def Let_def split: if_splits)
next
  case (TimerFired k)
  with assms show ?thesis
    by (auto simp: timerFired_def editor_inv_def split: if_splits job.splits)
next
  case (WarpResolved k)
  with assms show ?thesis
    by (auto simp: warpResolved_def editor_inv_def split: if_splits job.splits)
next
  case (WarpRejected k)
  with assms show ?thesis
    by (auto simp: warpRejected_def editor_inv_def split: if_splits job.splits)
qed

lemma editor_inv_reachable: "reachable st \<Longrightarrow> editor_inv st"
proof (induction rule: reachable.induct)
  case reachable_init
  show ?case by (simp add: editor_inv_def init_def)
next
  case (reachable_fire st e st')
  then show ?case by (blast intro: editor_inv_fire)
qed

lemma reachable_run: "reachable st \<Longrightarrow> run es st = Inr st' \<Longrightarrow> reachable st'"
proof (induction es arbitrary: st)
  case Nil
  then show ?case by simp
next
  case (Cons e es)
  then show ?case by (auto split: sum.splits intro: reachable_fire)
qed

lemmas session_defs = container_880x680_def container_480x380_def image_400x200_def
  imageLoaded_def resize_def updateLayout_def handleMouseDown_def handleMove_def handleEnd_def
  resetPoints_def handleProcessAndSave_def init_def Let_def

lemma run_dragging_state:
  "run [ImageLoaded image_400x200 (Some container_880x680), MouseDown 0] init = Inr dragging_state"
  by (simp add: session_defs dragging_state_def)

lemma reachable_dragging_state: "reachable dragging_state"
  using reachable_run [OF reachable_init run_dragging_state] .

subsection \<open>Layout\<close>

text \<open>
  C5, as stated, fails: the claim is made for every positive container size, but for a
  container of 100 by 50 pixels and a square image the available area is 20 by -30, the
  code takes the first branch and displays the image 20 pixels high, above the bound
  \<open>Ch - 2 * padding = -30\<close>.
\<close>

theorem updateLayout_small_container_exceeds_bound:
  "updateLayout [] (Some \<lparr> clientWidth = 100, clientHeight = 50, rect_left = 0, rect_top = 0 \<rparr>)
       (Some \<lparr> img_width = 100, img_height = 100 \<rparr>) init
     = Inr (init \<lparr> displayedImgDims :=
                    \<lparr> d_width = 20, d_height = 20, d_left = 40, d_top = 15, d_scale = 5 \<rparr>,
                  points := [\<lparr> px = 0, py = 0 \<rparr>, \<lparr> px = 20, py = 0 \<rparr>,
                             \<lparr> px = 20, py = 20 \<rparr>, \<lparr> px = 0, py = 20 \<rparr>] \<rparr>)
   \<and> \<not> ((20::real) \<le> real 50 - 2 * 40)"
  by (simp add: updateLayout_def Let_def)

text \<open>
  C5, amended: for every container wider and higher than twice the padding of 40 pixels
  and every image of positive width and height, \<open>updateLayout\<close> succeeds and the layout
  it stores satisfies (a) width / height equals the aspect ratio of the image (exactly, in
  real arithmetic), (b) the width is at most \<open>Cw - 2 * 40\<close> and the height at most
  \<open>Ch - 2 * 40\<close>, (c) one of the two bounds is attained, and the offsets are
  \<open>left = (Cw - width) / 2\<close> and \<open>top = (Ch - height) / 2\<close>.
\<close>

theorem updateLayout_letterbox:
  assumes "80 < clientWidth c" "80 < clientHeight c" "0 < img_width img" "0 < img_height img"
  shows "\<exists>st'. updateLayout cp (Some c) (Some img) st = Inr st'
           \<and> d_width (displayedImgDims st') / d_height (displayedImgDims st')
               = real (img_width img) / real (img_height img)
           \<and> d_width (displayedImgDims st') \<le> real (clientWidth c) - 2 * 40
           \<and> d_height (displayedImgDims st') \<le> real (clientHeight c) - 2 * 40
           \<and> (d_width (displayedImgDims st') = real (clientWidth c) - 2 * 40
                \<or> d_height (displayedImgDims st') = real (clientHeight c) - 2 * 40)
           \<and> d_left (displayedImgDims st') = (real (clientWidth c) - d_width (displayedImgDims st')) / 2
           \<and> d_top (displayedImgDims st') = (real (clientHeight c) - d_height (displayedImgDims st')) / 2"
proof -
  define aw where "aw = real (clientWidth c) - 80"
  define ah where "ah = real (clientHeight c) - 80"
  define r where "r = real (img_width img) / real (img_height img)"
  have pos: "0 < aw" "0 < ah" "0 < r"
    using assms by (simp_all add: aw_def ah_def r_def)
  show ?thesis
  proof (cases "r > aw / ah")
    case True
    have le: "aw / r \<le> ah"
      using True pos by (simp add: field_simps)
    show ?thesis
      using True pos le assms unfolding updateLayout_def Let_def aw_def ah_def r_def
      by simp
  next
    case False
    have le: "ah * r \<le> aw"
      using False pos by (simp add: field_simps)
    show ?thesis
      using False pos le assms unfolding updateLayout_def Let_def aw_def ah_def r_def
      by simp
  qed
qed

theorem updateLayout_letterbox_witness:
  "\<exists>st'. updateLayout [] (Some container_880x680) (Some image_400x200) init = Inr st'
     \<and> d_width (displayedImgDims st') = 800 \<and> d_height (displayedImgDims st') = 400
     \<and> d_left (displayedImgDims st') = 40 \<and> d_top (displayedImgDims st') = 140"
  using updateLayout_letterbox [of container_880x680 image_400x200 "[]" init]
  by (simp add: session_defs)

subsection \<open>Initialization and resize\<close>

text \<open>
  C6 is what the guard \<open>if (points.length === 0)\<close> is written for, and the code misses
  it: the \<open>points\<close> that the guard reads is the one captured when the effect ran, which is
  the empty list of the first render, so the guard holds at every \<open>resize\<close> event. In the
  session below the first handle is dragged to (100, 100); after the window is resized the
  four points are the corners of the new layout and the drag edit is gone.
\<close>

theorem resize_resets_dragged_points:
  "map_sum id points
     (run [ImageLoaded image_400x200 (Some container_880x680), MouseDown 0,
           Move 140 240 (Some container_880x680), End] init)
     = Inr [\<lparr> px = 100, py = 100 \<rparr>, \<lparr> px = 800, py = 0 \<rparr>,
            \<lparr> px = 800, py = 400 \<rparr>, \<lparr> px = 0, py = 400 \<rparr>]
   \<and> map_sum id points
     (run [ImageLoaded image_400x200 (Some container_880x680), MouseDown 0,
           Move 140 240 (Some container_880x680), End,
           Resize (Some container_480x380)] init)
     = Inr [\<lparr> px = 0, py = 0 \<rparr>, \<lparr> px = 400, py = 0 \<rparr>,
            \<lparr> px = 400, py = 200 \<rparr>, \<lparr> px = 0, py = 200 \<rparr>]"
  by (simp add: session_defs)

subsection \<open>Dragging\<close>

text \<open>
  C7: in every reachable state with a drag in progress on index \<open>i\<close>, the index is one of
  the four points, and a pointer-move event (with the container mounted) stores the state
  in which \<open>points[i]\<close> is the pointer position minus the container origin minus the
  display offset, unclamped; the list keeps its four points and the other three are the
  ones of the state before.
\<close>

theorem handleMove_updates_only_dragged_point:
  assumes "reachable st" and "draggingPointIndex st = Some i"
  shows "i < 4 \<and> length (points st) = 4
         \<and> handleMove clientX clientY (Some c) st =
             Inr (st \<lparr> points := (points st)
                   [i := \<lparr> px = clientX - rect_left c - d_left (displayedImgDims st),
                           py = clientY - rect_top c - d_top (displayedImgDims st) \<rparr>] \<rparr>)
         \<and> (\<forall>st'. handleMove clientX clientY (Some c) st = Inr st' \<longrightarrow>
               length (points st') = 4
               \<and> points st' ! i = \<lparr> px = clientX - rect_left c - d_left (displayedImgDims st),
                                    py = clientY - rect_top c - d_top (displayedImgDims st) \<rparr>
               \<and> (\<forall>j < 4. j \<noteq> i \<longrightarrow> points st' ! j = points st ! j))"
proof -
  have inv: "editor_inv st" using assms(1) by (rule editor_inv_reachable)
  have i: "i < length (points st)"
    using inv assms(2) by (simp add: editor_inv_def)
  then have len: "length (points st) = 4"
    using inv by (auto simp: editor_inv_def)
  show ?thesis
    using i len assms(2) by (auto simp: handleMove_def Let_def)
qed

theorem handleMove_updates_only_dragged_point_witness:
  "handleMove 140 240 (Some container_880x680) dragging_state
     = Inr (dragging_state \<lparr> points := [\<lparr> px = 100, py = 100 \<rparr>, \<lparr> px = 800, py = 0 \<rparr>,
                                         \<lparr> px = 800, py = 400 \<rparr>, \<lparr> px = 0, py = 400 \<rparr>] \<rparr>)"
  using handleMove_updates_only_dragged_point
          [OF reachable_dragging_state, where i = 0 and clientX = 140 and clientY = 240
             and c = container_880x680]
  by (simp add: dragging_state_def container_880x680_def)

subsection \<open>The number of points\<close>

text \<open>C9, as stated, fails at the start of the session: \<open>useState<Point[]>([])\<close> makes
  the corner list empty until the first layout computation.\<close>

theorem points_empty_at_session_start: "reachable init \<and> length (points init) \<noteq> 4"
  using reachable_init by (simp add: init_def)

text \<open>
  C9, amended: at every state reachable from the session start the corner list is empty
  (the mark of a session not yet initialized) or has exactly four points; every event
  that happens in a state with four points leads to a state with four points; the
  initialization (\<open>updateLayout\<close> with the empty captured list) and the reset store four
  points.
\<close>

theorem points_length_0_or_4:
  assumes "reachable st"
  shows "(length (points st) = 0 \<or> length (points st) = 4)
         \<and> (\<forall>e st'. fire e st = Inr st' \<and> length (points st) = 4 \<longrightarrow> length (points st') = 4)
         \<and> (\<forall>c img st'. updateLayout [] (Some c) (Some img) st = Inr st' \<longrightarrow> length (points st') = 4)
         \<and> length (points (resetPoints st)) = 4"
proof -
  have inv: "editor_inv st" using assms by (rule editor_inv_reachable)
  have a: "length (points st) = 0 \<or> length (points st) = 4"
    using inv by (simp add: editor_inv_def)
  have b: "length (points st') = 4" if "fire e st = Inr st'" "length (points st) = 4" for e st'
  proof -
    have "editor_inv st'" using inv that(1) by (rule editor_inv_fire)
    then have "length (points st') = 0 \<or> length (points st') = 4"
      by (simp add: editor_inv_def)
    moreover have "points st' \<noteq> []"
      using that
      by (cases e) (auto simp: imageLoaded_def resize_def handleMouseDown_def handleMove_def
          handleEnd_def resetPoints_def handleProcessAndSave_def timerFired_def warpResolved_def
          warpRejected_def Let_def
          dest!: updateLayout_frame split: option.splits sum.splits if_splits job.splits)
    ultimately show ?thesis by simp
  qed
  have c: "length (points st') = 4" if "updateLayout [] (Some c) (Some img) st = Inr st'" for c img st'
    using that by (auto simp: updateLayout_def Let_def split: if_splits)
  show ?thesis using a b c by (simp add: resetPoints_def) blast
qed

theorem points_length_0_or_4_witness:
  "length (points dragging_state) = 4 \<and> length (points (resetPoints dragging_state)) = 4"
  using points_length_0_or_4 [OF reachable_dragging_state]
  by (simp add: dragging_state_def)

subsection \<open>Confirming\<close>

text \<open>
  C10: at every reachable state at most one call of \<open>handleProcessAndSave\<close> is past its
  guard (waiting for the timer or running \<open>warpPerspective\<close>), so two warps never overlap,
  and the flag \<open>isProcessing\<close> is set while there is one; with the flag set a confirm
  returns at once and leaves the state as it is, without the flag it sets the flag and
  starts the one call; and the only event that clears the flag is the rejection of the
  running warp, after which no call is left.
\<close>

theorem confirm_never_overlaps:
  assumes "reachable st"
  shows "length (jobs st) \<le> 1
         \<and> (jobs st = [] \<or> isProcessing st)
         \<and> (if isProcessing st then handleProcessAndSave st = st
             else isProcessing (handleProcessAndSave st) \<and> length (jobs (handleProcessAndSave st)) = 1)
         \<and> (\<forall>e st'. fire e st = Inr st' \<and> isProcessing st \<and> \<not> isProcessing st'
               \<longrightarrow> (\<exists>k ps. e = WarpRejected k \<and> jobs st ! k = Warping ps \<and> jobs st' = []))"
proof -
  have inv: "editor_inv st" using assms by (rule editor_inv_reachable)
  have d: "\<exists>k ps. e = WarpRejected k \<and> jobs st ! k = Warping ps \<and> jobs st' = []"
    if "fire e st = Inr st'" "isProcessing st" "\<not> isProcessing st'" for e st'
    using that inv
    by (cases e) (auto simp: imageLoaded_def resize_def handleMouseDown_def handleMove_def
          handleEnd_def resetPoints_def handleProcessAndSave_def timerFired_def warpResolved_def
          warpRejected_def Let_def editor_inv_def
          dest!: updateLayout_frame split: option.splits sum.splits if_splits job.splits)
  show ?thesis
    using inv d by (auto simp: editor_inv_def handleProcessAndSave_def Let_def)
qed

theorem confirm_never_overlaps_witness:
  "length (jobs (handleProcessAndSave dragging_state)) = 1
   \<and> handleProcessAndSave (handleProcessAndSave dragging_state) = handleProcessAndSave dragging_state"
proof -
  have r: "reachable (handleProcessAndSave dragging_state)"
    using reachable_fire [OF reachable_dragging_state, of Confirm] by simp
  show ?thesis
    using confirm_never_overlaps [OF reachable_dragging_state] confirm_never_overlaps [OF r]
    by (simp add: dragging_state_def handleProcessAndSave_def Let_def)
qed

section \<open>Properties of the resampler\<close>

subsection \<open>Loops\<close>

lemma for_loop_fold: "for_loop i n body s = fold body [i..<n] s"
proof (induction i n body s rule: for_loop.induct)
  case (1 i n body s)
  show ?case
  proof (cases "i < n")
    case True
    then show ?thesis
      using "1" by (subst for_loop.simps) (simp add: upt_conv_Cons)
  next
    case False
    then show ?thesis by (subst for_loop.simps) simp
  qed
qed

lemma for_loop_empty [simp]: "n \<le> i \<Longrightarrow> for_loop i n body s = s"
  by (simp add: for_loop_fold)

lemma for_loop_Suc: "i \<le> n \<Longrightarrow> for_loop i (Suc n) body s = body n (for_loop i n body s)"
  by (simp add: for_loop_fold)

lemma for_loop_first: "i < n \<Longrightarrow> for_loop i n body s = for_loop (Suc i) n body (body i s)"
  by (subst for_loop.simps) simp

lemma for_loop_0_3: "for_loop 0 3 body s = body 2 (body 1 (body 0 s))"
  by (simp add: for_loop_fold upt_rec numeral_nat)

lemma for_loop_local:
  fixes f :: "nat \<Rightarrow> 'a list \<Rightarrow> 'a list" and B :: "nat \<Rightarrow> nat set"
  assumes len: "\<And>x d. length (f x d) = length d"
    and frame: "\<And>x d k. k \<notin> B x \<Longrightarrow> f x d ! k = d ! k"
    and own: "\<And>x d d' k. k \<in> B x \<Longrightarrow> k < length d \<Longrightarrow> length d' = length d \<Longrightarrow> d ! k = d' ! k
                \<Longrightarrow> f x d ! k = f x d' ! k"
    and disj: "\<And>x x'. x < x' \<Longrightarrow> B x \<inter> B x' = {}"
  shows "length (for_loop 0 m f d) = length d
         \<and> (\<forall>x<m. \<forall>k\<in>B x. k < length d \<longrightarrow> for_loop 0 m f d ! k = f x d ! k)
         \<and> (\<forall>k. k \<notin> (\<Union>x<m. B x) \<longrightarrow> for_loop 0 m f d ! k = d ! k)"
proof (induction m)
  case 0
  show ?case by simp
next
  case (Suc m)
  let ?r = "for_loop 0 m f d"
  have step: "for_loop 0 (Suc m) f d = f m ?r"
    by (simp add: for_loop_Suc)
  have IH1: "length ?r = length d"
    using Suc by (rule conjunct1)
  have IH2: "?r ! k = f x d ! k" if "x < m" "k \<in> B x" "k < length d" for x k
    using Suc that by blast
  have IH3: "?r ! k = d ! k" if "k \<notin> (\<Union>x<m. B x)" for k
    using Suc that by blast
  have notin: "k \<notin> (\<Union>x<m. B x)" if "k \<in> B m" for k
  proof
    assume "k \<in> (\<Union>x<m. B x)"
    then obtain x where "x < m" "k \<in> B x" by auto
    with disj [of x m] that show False by auto
  qed
  have a: "length (f m ?r) = length d"
    using IH1 by (simp add: len)
  have b: "f m ?r ! k = f x d ! k" if "x < Suc m" "k \<in> B x" "k < length d" for x k
  proof (cases "x = m")
    case True
    have km: "k \<in> B m" using that(2) True by simp
    have "?r ! k = d ! k" using IH3 [OF notin [OF km]] .
    then have "f m ?r ! k = f m d ! k"
      using own [of k m d ?r] km that(3) IH1 by simp
    then show ?thesis using True by simp
  next
    case False
    then have x: "x < m" using that(1) by simp
    have "k \<notin> B m"
    proof
      assume "k \<in> B m"
      with disj [of x m] x that(2) show False by auto
    qed
    then have "f m ?r ! k = ?r ! k" by (rule frame)
    then show ?thesis using IH2 [OF x that(2,3)] by simp
  qed
  have c: "f m ?r ! k = d ! k" if "k \<notin> (\<Union>x<Suc m. B x)" for k
  proof -
    have 1: "k \<notin> B m" using that by auto
    have 2: "k \<notin> (\<Union>x<m. B x)"
      using that by (auto simp: less_Suc_eq)
    show ?thesis using frame [OF 1] IH3 [OF 2] by simp
  qed
  show ?case
    unfolding step
  proof (intro conjI allI impI ballI)
    show "length (f m ?r) = length d" by (rule a)
  next
    fix x k assume "x < Suc m" "k \<in> B x" "k < length d"
    then show "f m ?r ! k = f x d ! k" by (rule b)
  next
    fix k assume "k \<notin> (\<Union>x<Suc m. B x)"
    then show "f m ?r ! k = d ! k" by (rule c)
  qed
qed

subsection \<open>The pixel loop\<close>

lemma pixelStep_eq:
  "pixelStep img h width y x d =
     (if sampled img h x y
      then (case mapped h (real x) (real y) of
              (u, v, w) \<Rightarrow>
                d [(y * width + x) * 4 + 0 := bilinear img (u / w) (v / w) 0,
                   (y * width + x) * 4 + 1 := bilinear img (u / w) (v / w) 1,
                   (y * width + x) * 4 + 2 := bilinear img (u / w) (v / w) 2,
                   (y * width + x) * 4 + 3 := 255])
      else d)"
proof (cases "h ! 6 * real x + h ! 7 * real y + h ! 8 = 0")
  case True
  then show ?thesis
    by (simp only: pixelStep_def sampled_def mapped_def Let_def prod.case simp_thms if_True if_False)
next
  case False
  then show ?thesis
    by (simp only: pixelStep_def sampled_def mapped_def bilinear_def Let_def for_loop_0_3
        prod.case simp_thms if_True if_False)
qed

lemma length_pixelStep: "length (pixelStep img h width y x d) = length d"
  by (simp add: pixelStep_eq split: prod.splits)

lemma pixelStep_frame: "k \<notin> block width y x \<Longrightarrow> pixelStep img h width y x d ! k = d ! k"
  by (auto simp: pixelStep_eq block_def split: prod.splits)

lemma upd4_nth:
  assumes "i \<le> k" "k < i + 4" "k < length d"
  shows "d [i + 0 := a, i + 1 := b, i + 2 := c, i + 3 := e] ! k = [a, b, c, e] ! (k - i)"
proof -
  consider "k = i" | "k = i + 1" | "k = i + 2" | "k = i + 3"
    using assms(1,2) by linarith
  then show ?thesis
  proof cases
    case 1
    then show ?thesis using assms(3) by simp
  next
    case 2
    then show ?thesis using assms(3) by simp
  next
    case 3
    then show ?thesis using assms(3) by (simp add: numeral_2_eq_2)
  next
    case 4
    then show ?thesis using assms(3) by (simp add: numeral_3_eq_3)
  qed
qed

lemma pixelStep_nth_block:
  assumes "k \<in> block width y x" "k < length d"
  shows "pixelStep img h width y x d ! k =
           (if sampled img h x y
            then (case mapped h (real x) (real y) of
                    (u, v, w) \<Rightarrow>
                      [bilinear img (u / w) (v / w) 0, bilinear img (u / w) (v / w) 1,
                       bilinear img (u / w) (v / w) 2, 255] ! (k - (y * width + x) * 4))
            else d ! k)"
proof -
  have k: "(y * width + x) * 4 \<le> k" "k < (y * width + x) * 4 + 4"
    using assms(1) by (simp_all add: block_def)
  show ?thesis
    unfolding pixelStep_eq
    by (simp only: upd4_nth [OF k assms(2)] split: prod.splits if_splits) simp
qed

lemma pixelStep_own:
  assumes "k \<in> block width y x" "k < length d" "length d' = length d" "d ! k = d' ! k"
  shows "pixelStep img h width y x d ! k = pixelStep img h width y x d' ! k"
proof -
  have "k < length d'" using assms(2,3) by simp
  then show ?thesis
    using assms by (simp only: pixelStep_nth_block)
qed

lemma block_disjoint: "x < x' \<Longrightarrow> block width y x \<inter> block width y x' = {}"
  by (auto simp: block_def)

lemma block_subset_row: 
  assumes "x < width"
  shows "block width y x \<subseteq> row_block width y"
proof -
  have a: "(y * width + x) * 4 = y * width * 4 + x * 4"
    by (simp add: add_mult_distrib)
  have b: "x * 4 + 4 \<le> width * 4"
    using assms by simp
  show ?thesis
    unfolding block_def row_block_def a using b by auto
qed

lemma row_block_cover: 
  assumes "k \<in> row_block width y"
  shows "\<exists>x<width. k \<in> block width y x"
proof -
  define base where "base = y * width * 4"
  define m where "m = k - base"
  define x where "x = m div 4"
  have "base \<le> k \<and> k < base + width * 4"
    using assms by (simp add: row_block_def base_def)
  then have k0: "k = base + m" "m < width * 4"
    unfolding m_def by linarith+
  have k: "k = y * width * 4 + m" "m < width * 4"
    using k0 by (simp_all add: base_def)
  have xw: "x < width"
    unfolding x_def using k(2) by (simp add: less_mult_imp_div_less)
  have dm: "x * 4 + m mod 4 = m"
    unfolding x_def by simp
  have md: "m mod 4 < 4" by simp
  have a: "(y * width + x) * 4 = y * width * 4 + x * 4"
    by (simp add: add_mult_distrib)
  have "k \<in> block width y x"
    unfolding block_def a using k(1) dm md by simp
  then show ?thesis using xw by blast
qed

lemma row_block_disjoint:
  assumes "y < y'"
  shows "row_block width y \<inter> row_block width y' = {}"
proof -
  have "Suc y \<le> y'" using assms by simp
  then have "Suc y * (width * 4) \<le> y' * (width * 4)" by (rule mult_le_mono1)
  then have "y * width * 4 + width * 4 \<le> y' * width * 4"
    by (simp add: mult.assoc)
  then show ?thesis by (auto simp: row_block_def)
qed

lemma rowLoop_props:
  "length (rowLoop img h width y d) = length d
   \<and> (\<forall>x<width. \<forall>k\<in>block width y x. k < length d \<longrightarrow> rowLoop img h width y d ! k = pixelStep img h width y x d ! k)
   \<and> (\<forall>k. k \<notin> row_block width y \<longrightarrow> rowLoop img h width y d ! k = d ! k)"
proof -
  have "length (rowLoop img h width y d) = length d
         \<and> (\<forall>x<width. \<forall>k\<in>block width y x. k < length d \<longrightarrow> rowLoop img h width y d ! k = pixelStep img h width y x d ! k)
         \<and> (\<forall>k. k \<notin> (\<Union>x<width. block width y x) \<longrightarrow> rowLoop img h width y d ! k = d ! k)"
    unfolding rowLoop_def
  proof (rule for_loop_local [where B = "block width y"])
    show "length (pixelStep img h width y x d) = length d" for x d
      by (rule length_pixelStep)
    show "pixelStep img h width y x d ! k = d ! k" if "k \<notin> block width y x" for x d k
      using that by (rule pixelStep_frame)
    show "pixelStep img h width y x d ! k = pixelStep img h width y x d' ! k"
      if "k \<in> block width y x" "k < length d" "length d' = length d" "d ! k = d' ! k" for x d d' k
      using that by (rule pixelStep_own)
    show "block width y x \<inter> block width y x' = {}" if "x < x'" for x x'
      using that by (rule block_disjoint)
  qed
  moreover have "k \<notin> (\<Union>x<width. block width y x)" if "k \<notin> row_block width y" for k
    using that block_subset_row by blast
  ultimately show ?thesis by blast
qed

lemma rowLoop_own:
  assumes "k \<in> row_block width y" "k < length d" "length d' = length d" "d ! k = d' ! k"
  shows "rowLoop img h width y d ! k = rowLoop img h width y d' ! k"
proof -
  obtain x where x: "x < width" "k \<in> block width y x"
    using row_block_cover [OF assms(1)] by blast
  have "rowLoop img h width y d ! k = pixelStep img h width y x d ! k"
    using rowLoop_props [of img h width y d] x assms(2) by blast
  also have "\<dots> = pixelStep img h width y x d' ! k"
    using pixelStep_own [OF x(2) assms(2,3,4)] .
  also have "\<dots> = rowLoop img h width y d' ! k"
    using rowLoop_props [of img h width y d'] x assms(2,3) by simp
  finally show ?thesis .
qed

lemma warp_loops_pixel:
  assumes "x < width" "y < height" "k \<in> block width y x" "length d = width * height * 4"
  shows "for_loop 0 height (\<lambda>y dData. for_loop 0 width (\<lambda>x dData. pixelStep img h width y x dData) dData) d ! k
         = pixelStep img h width y x d ! k"
    and "length (for_loop 0 height (\<lambda>y dData. for_loop 0 width (\<lambda>x dData. pixelStep img h width y x dData) dData) d) = length d"
proof -
  let ?L = "for_loop 0 height (rowLoop img h width) d"
  have eq: "(\<lambda>y dData. for_loop 0 width (\<lambda>x dData. pixelStep img h width y x dData) dData) = rowLoop img h width"
    by (simp add: rowLoop_def fun_eq_iff)
  have P: "length ?L = length d
         \<and> (\<forall>y<height. \<forall>k\<in>row_block width y. k < length d \<longrightarrow> ?L ! k = rowLoop img h width y d ! k)
         \<and> (\<forall>k. k \<notin> (\<Union>y<height. row_block width y) \<longrightarrow> ?L ! k = d ! k)"
  proof (rule for_loop_local [where B = "row_block width"])
    show "length (rowLoop img h width y d) = length d" for y d
      using rowLoop_props [of img h width y d] by (rule conjunct1)
    show "rowLoop img h width y d ! k = d ! k" if "k \<notin> row_block width y" for y d k
      using rowLoop_props [of img h width y d] that by blast
    show "rowLoop img h width y d ! k = rowLoop img h width y d' ! k"
      if "k \<in> row_block width y" "k < length d" "length d' = length d" "d ! k = d' ! k" for y d d' k
      using that by (rule rowLoop_own)
    show "row_block width y \<inter> row_block width y' = {}" if "y < y'" for y y'
      using that by (rule row_block_disjoint)
  qed
  have kr: "k \<in> row_block width y"
    using block_subset_row [OF assms(1)] assms(3) by blast
  have "(y * width + x) * 4 + 4 \<le> (y + 1) * width * 4"
    using assms(1) by (simp add: algebra_simps)
  also have "\<dots> \<le> height * width * 4"
  proof -
    have "Suc y \<le> height" using assms(2) by simp
    then have "Suc y * (width * 4) \<le> height * (width * 4)" by (rule mult_le_mono1)
    then show ?thesis by (simp add: mult.assoc)
  qed
  finally have kl: "k < length d"
    using assms(3,4) by (simp add: block_def algebra_simps)
  have "?L ! k = rowLoop img h width y d ! k"
    using P assms(2) kr kl by blast
  also have "\<dots> = pixelStep img h width y x d ! k"
    using rowLoop_props [of img h width y d] assms(1,3) kl by blast
  finally show "for_loop 0 height (\<lambda>y dData. for_loop 0 width (\<lambda>x dData. pixelStep img h width y x dData) dData) d ! k
         = pixelStep img h width y x d ! k"
    unfolding eq .
  show "length (for_loop 0 height (\<lambda>y dData. for_loop 0 width (\<lambda>x dData. pixelStep img h width y x dData) dData) d) = length d"
    unfolding eq using P by blast
qed

subsection \<open>The elimination\<close>

lemma length_row_minus [simp]: "length (row_minus i m f p r) = length r"
  by (simp add: row_minus_def)

lemma nth_row_minus:
  "k < length r \<Longrightarrow> row_minus i m f p r ! k = (if i \<le> k \<and> k < m then r ! k - f * p ! k else r ! k)"
  by (simp add: row_minus_def)

lemma row_minus_empty: "m \<le> i \<Longrightarrow> row_minus i m f p r = r"
  by (rule nth_equalityI) (simp_all add: nth_row_minus)

lemma row_minus_Suc:
  assumes "i \<le> m" "m < length r"
  shows "(row_minus i m f p r) [m := row_minus i m f p r ! m - f * p ! m] = row_minus i (Suc m) f p r"
proof (rule nth_equalityI)
  show "length ((row_minus i m f p r) [m := row_minus i m f p r ! m - f * p ! m]) = length (row_minus i (Suc m) f p r)"
    by simp
next
  fix k assume "k < length ((row_minus i m f p r) [m := row_minus i m f p r ! m - f * p ! m])"
  then have k: "k < length r" by simp
  show "(row_minus i m f p r) [m := row_minus i m f p r ! m - f * p ! m] ! k = row_minus i (Suc m) f p r ! k"
  proof (cases "k = m")
    case True
    then show ?thesis using assms k by (simp add: nth_row_minus)
  next
    case False
    then show ?thesis using assms k by (auto simp: nth_row_minus)
  qed
qed

lemma k_loop:
  assumes "j < length a" "i \<noteq> j" "i \<le> m" "m \<le> length (a ! j)"
  shows "for_loop i m (\<lambda>k a. a [j := (a ! j) [k := a ! j ! k - f * a ! i ! k]]) a
         = a [j := row_minus i m f (a ! i) (a ! j)]"
  using assms(3,4)
proof (induction m)
  case 0
  then show ?case by (simp add: row_minus_empty)
next
  case (Suc m)
  show ?case
  proof (cases "i = Suc m")
    case True
    then show ?thesis by (simp add: row_minus_empty)
  next
    case False
    then have im: "i \<le> m" using Suc.prems by simp
    have ml: "m < length (a ! j)" using Suc.prems by simp
    have IH: "for_loop i m (\<lambda>k a. a [j := (a ! j) [k := a ! j ! k - f * a ! i ! k]]) a
         = a [j := row_minus i m f (a ! i) (a ! j)]"
      using Suc.IH im ml by simp
    show ?thesis
      unfolding for_loop_Suc [OF im] IH
      using assms(1,2) row_minus_Suc [OF im ml, of f "a ! i"] by simp
  qed
qed

lemma length_reduced_a [simp]: "length (reduced_a i m n a) = length a"
  by (simp add: reduced_a_def)

lemma length_reduced_b [simp]: "length (reduced_b i m a b) = length b"
  by (simp add: reduced_b_def)

lemma nth_reduced_a:
  "r < length a \<Longrightarrow> reduced_a i m n a ! r
     = (if i < r \<and> r < m then row_minus i n (a ! r ! i / a ! i ! i) (a ! i) (a ! r) else a ! r)"
  by (simp add: reduced_a_def)

lemma nth_reduced_b:
  "r < length b \<Longrightarrow> reduced_b i m a b ! r
     = (if i < r \<and> r < m then b ! r - (a ! r ! i / a ! i ! i) * b ! i else b ! r)"
  by (simp add: reduced_b_def)

lemma reduced_a_empty: "m \<le> Suc i \<Longrightarrow> reduced_a i m n a = a"
  by (rule nth_equalityI) (auto simp: nth_reduced_a)

lemma reduced_b_empty: "m \<le> Suc i \<Longrightarrow> reduced_b i m a b = b"
  by (rule nth_equalityI) (auto simp: nth_reduced_b)

lemma j_loop:
  assumes wf: "wf_system n a b" and i: "i < n" and m: "Suc i \<le> m" "m \<le> n"
  shows "for_loop (i + 1) m
           (\<lambda>j (a, b).
              (let factor = a ! j ! i / a ! i ! i;
                   b' = b [j := b ! j - factor * b ! i];
                   a' = for_loop i n (\<lambda>k a. a [j := (a ! j) [k := a ! j ! k - factor * a ! i ! k]]) a
               in (a', b')))
           (a, b)
         = (reduced_a i m n a, reduced_b i m a b)"
  using m
proof (induction m)
  case 0
  then show ?case by simp
next
  case (Suc m)
  let ?body = "\<lambda>j (a, b).
              (let factor = a ! j ! i / a ! i ! i;
                   b' = b [j := b ! j - factor * b ! i];
                   a' = for_loop i n (\<lambda>k a. a [j := (a ! j) [k := a ! j ! k - factor * a ! i ! k]]) a
               in (a', b'))"
  show ?case
  proof (cases "m = i")
    case True
    then show ?thesis by (simp add: reduced_a_empty reduced_b_empty)
  next
    case False
    then have im: "Suc i \<le> m" using Suc.prems by simp
    have mn: "m < n" using Suc.prems by simp
    have la: "length a = n" and lb: "length b = n" and lr: "\<And>r. r < n \<Longrightarrow> length (a ! r) = n"
      using wf by (simp_all add: wf_system_def)
    have IH: "for_loop (i + 1) m ?body (a, b) = (reduced_a i m n a, reduced_b i m a b)"
      using Suc.IH im mn by simp
    let ?A = "reduced_a i m n a" and ?B = "reduced_b i m a b"
    let ?f = "a ! m ! i / a ! i ! i"
    have Am: "?A ! m = a ! m" and Ai: "?A ! i = a ! i"
      using mn i la by (simp_all add: nth_reduced_a)
    have Bm: "?B ! m = b ! m" and Bi: "?B ! i = b ! i"
      using mn i lb by (simp_all add: nth_reduced_b)
    have kl: "for_loop i n (\<lambda>k a. a [m := (a ! m) [k := a ! m ! k - ?f * a ! i ! k]]) ?A
                = ?A [m := row_minus i n ?f (?A ! i) (?A ! m)]"
      by (rule k_loop) (use mn i la lr im Am in simp_all)
    have A': "?A [m := row_minus i n ?f (a ! i) (a ! m)] = reduced_a i (Suc m) n a"
    proof (rule nth_equalityI)
      show "length (?A [m := row_minus i n ?f (a ! i) (a ! m)]) = length (reduced_a i (Suc m) n a)"
        by simp
    next
      fix r assume "r < length (?A [m := row_minus i n ?f (a ! i) (a ! m)])"
      then have r: "r < length a" by simp
      show "?A [m := row_minus i n ?f (a ! i) (a ! m)] ! r = reduced_a i (Suc m) n a ! r"
      proof (cases "r = m")
        case True
        then show ?thesis using r im by (simp add: nth_reduced_a)
      next
        case False
        then show ?thesis using r by (auto simp: nth_reduced_a)
      qed
    qed
    have B': "?B [m := b ! m - ?f * b ! i] = reduced_b i (Suc m) a b"
    proof (rule nth_equalityI)
      show "length (?B [m := b ! m - ?f * b ! i]) = length (reduced_b i (Suc m) a b)"
        by simp
    next
      fix r assume "r < length (?B [m := b ! m - ?f * b ! i])"
      then have r: "r < length b" by simp
      show "?B [m := b ! m - ?f * b ! i] ! r = reduced_b i (Suc m) a b ! r"
      proof (cases "r = m")
        case True
        then show ?thesis using r im by (simp add: nth_reduced_b)
      next
        case False
        then show ?thesis using r by (auto simp: nth_reduced_b)
      qed
    qed
    have "for_loop (i + 1) (Suc m) ?body (a, b) = ?body m (?A, ?B)"
      using for_loop_Suc [of "i + 1" m ?body "(a, b)"] im IH by simp
    also have "\<dots> = (reduced_a i (Suc m) n a, reduced_b i (Suc m) a b)"
      by (simp only: prod.case Let_def Am Ai Bm Bi kl A' B')
    finally show ?thesis .
  qed
qed

lemma pivot_loop:
  fixes a :: "real list list"
  assumes "i < m"
  shows "i \<le> for_loop (i + 1) m (\<lambda>j pivot. if \<bar>a ! j ! i\<bar> > \<bar>a ! pivot ! i\<bar> then j else pivot) i
       \<and> for_loop (i + 1) m (\<lambda>j pivot. if \<bar>a ! j ! i\<bar> > \<bar>a ! pivot ! i\<bar> then j else pivot) i < m
       \<and> (\<forall>j. i \<le> j \<and> j < m \<longrightarrow>
             \<bar>a ! j ! i\<bar> \<le> \<bar>a ! (for_loop (i + 1) m (\<lambda>j pivot. if \<bar>a ! j ! i\<bar> > \<bar>a ! pivot ! i\<bar> then j else pivot) i) ! i\<bar>)"
  using assms
proof (induction m)
  case 0
  then show ?case by simp
next
  case (Suc m)
  let ?body = "\<lambda>j pivot. if \<bar>a ! j ! i\<bar> > \<bar>a ! pivot ! i\<bar> then j else pivot"
  show ?case
  proof (cases "m = i")
    case True
    have "\<bar>a ! j ! i\<bar> \<le> \<bar>a ! i ! i\<bar>" if "i \<le> j \<and> j < Suc i" for j
    proof -
      have "j = i" using that by simp
      then show ?thesis by simp
    qed
    then show ?thesis using True by simp
  next
    case False
    then have im: "i < m" using Suc.prems by simp
    let ?p = "for_loop (i + 1) m ?body i"
    have IH: "i \<le> ?p" "?p < m" "\<And>j. i \<le> j \<Longrightarrow> j < m \<Longrightarrow> \<bar>a ! j ! i\<bar> \<le> \<bar>a ! ?p ! i\<bar>"
      using Suc.IH [OF im] by blast+
    have step: "for_loop (i + 1) (Suc m) ?body i = ?body m ?p"
      using for_loop_Suc [of "i + 1" m ?body i] im by simp
    show ?thesis
    proof (cases "\<bar>a ! m ! i\<bar> > \<bar>a ! ?p ! i\<bar>")
      case True
      have "\<bar>a ! j ! i\<bar> \<le> \<bar>a ! m ! i\<bar>" if "i \<le> j" "j < Suc m" for j
      proof (cases "j = m")
        case True
        then show ?thesis by simp
      next
        case False
        then have "j < m" using that by simp
        then show ?thesis using IH(3) [OF that(1)] True by simp
      qed
      then show ?thesis unfolding step using True im by simp
    next
      case False
      have "\<bar>a ! j ! i\<bar> \<le> \<bar>a ! ?p ! i\<bar>" if "i \<le> j" "j < Suc m" for j
      proof (cases "j = m")
        case True
        then show ?thesis using False by simp
      next
        case F: False
        then have "j < m" using that by simp
        then show ?thesis using IH(3) [OF that(1)] by simp
      qed
      then show ?thesis unfolding step using False IH(1,2) by simp
    qed
  qed
qed

lemma row_dot_row_minus:
  assumes "length r = n" "\<And>k. k < i \<Longrightarrow> p ! k = 0"
  shows "row_dot n (row_minus i n f p r) y = row_dot n r y - f * row_dot n p y"
proof -
  have "row_minus i n f p r ! k * y k = r ! k * y k - f * (p ! k * y k)" if "k < n" for k
    using that assms by (simp add: nth_row_minus algebra_simps)
  then have "row_dot n (row_minus i n f p r) y = (\<Sum>k<n. r ! k * y k - f * (p ! k * y k))"
    unfolding row_dot_def by (intro sum.cong) simp_all
  also have "\<dots> = row_dot n r y - f * row_dot n p y"
    by (simp add: row_dot_def sum_subtractf sum_distrib_left)
  finally show ?thesis .
qed

lemma solves_swap:
  assumes "length a = n" "length b = n" "i < n" "p < n"
  shows "solves n (a [i := a ! p, p := a ! i]) (b [i := b ! p, p := b ! i]) y t \<longleftrightarrow> solves n a b y t"
proof
  assume s: "solves n (a [i := a ! p, p := a ! i]) (b [i := b ! p, p := b ! i]) y t"
  show "solves n a b y t"
    unfolding solves_def
  proof (intro allI impI)
    fix r assume r: "r < n"
    show "row_dot n (a ! r) y = t * b ! r"
    proof (cases "r = i")
      case True
      then show ?thesis using s [unfolded solves_def, rule_format, of p] assms
        by (simp add: nth_list_update)
    next
      case False
      show ?thesis
      proof (cases "r = p")
        case True
        then show ?thesis using s [unfolded solves_def, rule_format, of i] assms False
          by (simp add: nth_list_update)
      next
        case F: False
        then show ?thesis using s [unfolded solves_def, rule_format, of r] assms False r
          by (simp add: nth_list_update)
      qed
    qed
  qed
next
  assume s: "solves n a b y t"
  show "solves n (a [i := a ! p, p := a ! i]) (b [i := b ! p, p := b ! i]) y t"
    unfolding solves_def
  proof (intro allI impI)
    fix r assume r: "r < n"
    show "row_dot n (a [i := a ! p, p := a ! i] ! r) y = t * b [i := b ! p, p := b ! i] ! r"
      using s [unfolded solves_def, rule_format, of r] s [unfolded solves_def, rule_format, of i]
        s [unfolded solves_def, rule_format, of p] assms r
      by (auto simp: nth_list_update)
  qed
qed

lemma solves_reduced:
  assumes wf: "wf_system n a b" and i: "i < n" and z: "\<And>k. k < i \<Longrightarrow> a ! i ! k = 0"
  shows "solves n (reduced_a i n n a) (reduced_b i n a b) y t \<longleftrightarrow> solves n a b y t"
proof -
  have la: "length a = n" and lb: "length b = n" and lr: "\<And>r. r < n \<Longrightarrow> length (a ! r) = n"
    using wf by (simp_all add: wf_system_def)
  have below: "row_dot n (reduced_a i n n a ! r) y
               = row_dot n (a ! r) y - (a ! r ! i / a ! i ! i) * row_dot n (a ! i) y"
    if "i < r" "r < n" for r
    using that la lr z by (simp add: nth_reduced_a row_dot_row_minus)
  have belowb: "reduced_b i n a b ! r = b ! r - (a ! r ! i / a ! i ! i) * b ! i" if "i < r" "r < n" for r
    using that lb by (simp add: nth_reduced_b)
  have same: "reduced_a i n n a ! r = a ! r" "reduced_b i n a b ! r = b ! r" if "r \<le> i" for r
    using that la lb i by (simp_all add: nth_reduced_a nth_reduced_b)
  show ?thesis
  proof
    assume s: "solves n (reduced_a i n n a) (reduced_b i n a b) y t"
    have ri: "row_dot n (a ! i) y = t * b ! i"
      using s [unfolded solves_def, rule_format, of i] i same [of i] by simp
    show "solves n a b y t"
      unfolding solves_def
    proof (intro allI impI)
      fix r assume r: "r < n"
      show "row_dot n (a ! r) y = t * b ! r"
      proof (cases "i < r")
        case True
        have "row_dot n (a ! r) y - (a ! r ! i / a ! i ! i) * row_dot n (a ! i) y
              = t * (b ! r - (a ! r ! i / a ! i ! i) * b ! i)"
          using s [unfolded solves_def, rule_format, of r] r below [OF True r] belowb [OF True r]
          by simp
        then show ?thesis unfolding ri by (simp add: algebra_simps)
      next
        case False
        then show ?thesis
          using s [unfolded solves_def, rule_format, of r] r same [of r] by simp
      qed
    qed
  next
    assume s: "solves n a b y t"
    show "solves n (reduced_a i n n a) (reduced_b i n a b) y t"
      unfolding solves_def
    proof (intro allI impI)
      fix r assume r: "r < n"
      show "row_dot n (reduced_a i n n a ! r) y = t * reduced_b i n a b ! r"
      proof (cases "i < r")
        case True
        show ?thesis
          unfolding below [OF True r] belowb [OF True r]
          using s [unfolded solves_def, rule_format, of r] s [unfolded solves_def, rule_format, of i] r i
          by (simp add: algebra_simps)
      next
        case False
        then show ?thesis
          using s [unfolded solves_def, rule_format, of r] r same [of r] by simp
      qed
    qed
  qed
qed

lemma kernel_vector:
  fixes a :: "real list list"
  assumes i: "i < n"
    and diag: "\<And>r. r < i \<Longrightarrow> a ! r ! r \<noteq> 0"
    and low: "\<And>r k. r < n \<Longrightarrow> k < i \<Longrightarrow> k < r \<Longrightarrow> a ! r ! k = 0"
    and col: "\<And>r. i \<le> r \<Longrightarrow> r < n \<Longrightarrow> a ! r ! i = 0"
  shows "\<exists>y. y i = 1 \<and> (\<forall>r<n. row_dot n (a ! r) y = 0)"
proof -
  have upper: "\<exists>y. y i = 1 \<and> (\<forall>k>i. y k = 0) \<and> (\<forall>r. i - j \<le> r \<and> r < i \<longrightarrow> row_dot n (a ! r) y = 0)" for j
  proof (induction j)
    case 0
    show ?case by (rule exI [of _ "\<lambda>k. if k = i then 1 else 0"]) simp
  next
    case (Suc j)
    then obtain y where y: "y i = 1" "\<And>k. i < k \<Longrightarrow> y k = 0"
      "\<And>r. i - j \<le> r \<Longrightarrow> r < i \<Longrightarrow> row_dot n (a ! r) y = 0"
      by blast
    show ?case
    proof (cases "j < i")
      case False
      then have "i - Suc j = i - j" by simp
      then show ?thesis using y by auto
    next
      case True
      define m where "m = i - Suc j"
      have m: "m < i" "i - j = Suc m" using True by (simp_all add: m_def)
      have mn: "m < n" using m(1) i by simp
      define s where "s = (\<Sum>k\<in>{..<n} - {m}. a ! m ! k * y k)"
      define y' where "y' = y (m := - s / a ! m ! m)"
      have nz: "a ! m ! m \<noteq> 0" using diag m(1) by simp
      have "row_dot n (a ! m) y' = a ! m ! m * y' m + (\<Sum>k\<in>{..<n} - {m}. a ! m ! k * y' k)"
        unfolding row_dot_def using mn by (simp add: sum.remove [of _ m])
      also have "(\<Sum>k\<in>{..<n} - {m}. a ! m ! k * y' k) = s"
        unfolding s_def by (intro sum.cong) (simp_all add: y'_def)
      also have "a ! m ! m * y' m + s = 0"
        using nz by (simp add: y'_def)
      finally have rowm: "row_dot n (a ! m) y' = 0" .
      have rows: "row_dot n (a ! r) y' = 0" if "Suc m \<le> r" "r < i" for r
      proof -
        have rn: "r < n" using that(2) i by simp
        have z: "a ! r ! m = 0" using low [OF rn m(1)] that(1) by simp
        have "row_dot n (a ! r) y' = row_dot n (a ! r) y"
          unfolding row_dot_def by (intro sum.cong) (auto simp: y'_def z)
        then show ?thesis using y(3) that m(2) by simp
      qed
      have "row_dot n (a ! r) y' = 0" if "i - Suc j \<le> r" "r < i" for r
      proof (cases "r = m")
        case True
        then show ?thesis using rowm by simp
      next
        case False
        then have "Suc m \<le> r" using that(1) by (simp add: m_def)
        then show ?thesis using rows that(2) by simp
      qed
      moreover have "y' i = 1" using y(1) m(1) by (simp add: y'_def)
      moreover have "y' k = 0" if "i < k" for k using y(2) that m(1) by (simp add: y'_def)
      ultimately show ?thesis by blast
    qed
  qed
  from upper [of i] obtain y where y: "y i = 1" "\<And>k. i < k \<Longrightarrow> y k = 0"
      "\<And>r. r < i \<Longrightarrow> row_dot n (a ! r) y = 0"
    by auto
  have "row_dot n (a ! r) y = 0" if "r < n" for r
  proof (cases "r < i")
    case True
    then show ?thesis by (rule y(3))
  next
    case False
    have "a ! r ! k * y k = 0" if "k < n" for k
    proof -
      consider "k < i" | "k = i" | "i < k" by linarith
      then show ?thesis
      proof cases
        case 1
        then show ?thesis using low [OF \<open>r < n\<close> 1] False by simp
      next
        case 2
        then show ?thesis using col [of r] False \<open>r < n\<close> by simp
      next
        case 3
        then show ?thesis using y(2) by simp
      qed
    qed
    then have "(\<Sum>k<n. a ! r ! k * y k) = (\<Sum>k<n. 0)"
      by (intro sum.cong) simp_all
    then show ?thesis unfolding row_dot_def by simp
  qed
  then show ?thesis using y(1) by blast
qed

lemma wf_swap:
  assumes "wf_system n a b" "i < n" "p < n"
  shows "wf_system n (a [i := a ! p, p := a ! i]) (b [i := b ! p, p := b ! i])"
  using assms by (auto simp: wf_system_def nth_list_update)

lemma lower_zero_swap:
  assumes "lower_zero n i a" "length a = n" "i \<le> p" "p < n"
  shows "lower_zero n i (a [i := a ! p, p := a ! i])"
  unfolding lower_zero_def
proof (intro allI impI)
  fix r k assume r: "r < n" and k: "k < n" and kk: "k < i \<and> k < r"
  have z: "a ! q ! k = 0" if "q < n" "k < q" for q
    using assms(1) that k kk by (simp add: lower_zero_def)
  show "a [i := a ! p, p := a ! i] ! r ! k = 0"
    using assms(2,3,4) r kk z [of p] z [of i] z [of r]
    by (auto simp: nth_list_update)
qed

lemma diag_nonzero_swap:
  assumes "diag_nonzero n i a" "length a = n" "i \<le> p" "p < n"
  shows "diag_nonzero n i (a [i := a ! p, p := a ! i])"
  using assms by (auto simp: diag_nonzero_def nth_list_update)

lemma wf_reduced:
  assumes "wf_system n a b"
  shows "wf_system n (reduced_a i n n a) (reduced_b i n a b)"
  using assms by (auto simp: wf_system_def nth_reduced_a)

lemma lower_zero_reduced:
  assumes wf: "wf_system n a b" and lz: "lower_zero n i a" and i: "i < n"
    and nz: "i + 1 < n \<Longrightarrow> a ! i ! i \<noteq> 0"
  shows "lower_zero n (i + 1) (reduced_a i n n a)"
  unfolding lower_zero_def
proof (intro allI impI)
  fix r k assume r: "r < n" and k: "k < n" and kk: "k < i + 1 \<and> k < r"
  have la: "length a = n" and lr: "\<And>r. r < n \<Longrightarrow> length (a ! r) = n"
    using wf by (simp_all add: wf_system_def)
  show "reduced_a i n n a ! r ! k = 0"
  proof (cases "k = i")
    case True
    then have ir: "i < r" using kk by simp
    then have "i + 1 < n" using r by simp
    then have "a ! i ! i \<noteq> 0" by (rule nz)
    then show ?thesis using True ir r la lr i by (simp add: nth_reduced_a nth_row_minus)
  next
    case False
    then have ki: "k < i" using kk by simp
    have "a ! r ! k = 0" using lz r k ki kk by (simp add: lower_zero_def)
    then show ?thesis using r la lr k ki by (simp add: nth_reduced_a nth_row_minus)
  qed
qed

lemma diag_nonzero_reduced:
  assumes "diag_nonzero n i a" "length a = n" "i + 1 < n \<Longrightarrow> a ! i ! i \<noteq> 0"
  shows "diag_nonzero n (i + 1) (reduced_a i n n a)"
  using assms by (auto simp: diag_nonzero_def nth_reduced_a less_Suc_eq)

lemma eliminate_unfold:
  assumes wf: "wf_system n a b" and i: "i < n"
  shows "eliminate i n a b =
           (if i + 1 < n \<and> a [i := a ! pivot_row i n a, pivot_row i n a := a ! i] ! i ! i = 0
            then Inl NonFinite
            else eliminate (i + 1) n
                   (reduced_a i n n (a [i := a ! pivot_row i n a, pivot_row i n a := a ! i]))
                   (reduced_b i n (a [i := a ! pivot_row i n a, pivot_row i n a := a ! i])
                                  (b [i := b ! pivot_row i n a, pivot_row i n a := b ! i])))"
proof -
  have p: "pivot_row i n a < n"
    using pivot_loop [OF i, of a] by (simp add: pivot_row_def)
  have wf1: "wf_system n (a [i := a ! pivot_row i n a, pivot_row i n a := a ! i])
                         (b [i := b ! pivot_row i n a, pivot_row i n a := b ! i])"
    using wf i p by (rule wf_swap)
  have in': "Suc i \<le> n" using i by simp
  show ?thesis
    by (subst eliminate.simps)
       (simp only: Let_def pivot_row_def [symmetric] j_loop [unfolded Let_def, OF wf1 i in' le_refl]
          prod.case i if_True)
qed

lemma eliminate_done: "n \<le> i \<Longrightarrow> eliminate i n a b = Inr (a, b)"
  by (subst eliminate.simps) simp

lemma eliminate_main:
  assumes "wf_system n a b" "i \<le> n" "lower_zero n i a" "diag_nonzero n i a"
  shows "(\<exists>a' b'. eliminate i n a b = Inr (a', b') \<and> wf_system n a' b' \<and> lower_zero n n a'
            \<and> diag_nonzero n n a' \<and> (\<forall>y t. solves n a' b' y t \<longleftrightarrow> solves n a b y t))
         \<or> (eliminate i n a b = Inl NonFinite \<and> (\<exists>y. solves n a b y 0 \<and> (\<exists>k<n. y k \<noteq> 0)))"
  using assms
proof (induction "n - i" arbitrary: i a b)
  case 0
  then have "i = n" by simp
  then show ?case using 0 by (simp add: eliminate_done)
next
  case (Suc d)
  then have i: "i < n" by simp
  define p where "p = pivot_row i n a"
  define a1 where "a1 = a [i := a ! p, p := a ! i]"
  define b1 where "b1 = b [i := b ! p, p := b ! i]"
  have la: "length a = n" and lb: "length b = n"
    using Suc.prems(1) by (simp_all add: wf_system_def)
  have p: "i \<le> p" "p < n" and pmax: "\<And>j. i \<le> j \<Longrightarrow> j < n \<Longrightarrow> \<bar>a ! j ! i\<bar> \<le> \<bar>a ! p ! i\<bar>"
    using pivot_loop [OF i, of a] by (simp_all add: pivot_row_def p_def)
  have wf1: "wf_system n a1 b1"
    unfolding a1_def b1_def using Suc.prems(1) i p(2) by (rule wf_swap)
  have lz1: "lower_zero n i a1"
    unfolding a1_def using Suc.prems(3) la p by (rule lower_zero_swap)
  have dn1: "diag_nonzero n i a1"
    unfolding a1_def using Suc.prems(4) la p by (rule diag_nonzero_swap)
  have sw: "solves n a1 b1 y t \<longleftrightarrow> solves n a b y t" for y t
    unfolding a1_def b1_def using la lb i p(2) by (rule solves_swap)
  have la1: "length a1 = n" using wf1 by (simp add: wf_system_def)
  have a1ii: "a1 ! i ! i = a ! p ! i"
    using la i p by (simp add: a1_def nth_list_update)
  have unfold: "eliminate i n a b =
      (if i + 1 < n \<and> a1 ! i ! i = 0 then Inl NonFinite
       else eliminate (i + 1) n (reduced_a i n n a1) (reduced_b i n a1 b1))"
    using eliminate_unfold [OF Suc.prems(1) i] by (simp add: a1_def b1_def p_def)
  show ?case
  proof (cases "i + 1 < n \<and> a1 ! i ! i = 0")
    case True
    have col: "a1 ! r ! i = 0" if "i \<le> r" "r < n" for r
    proof -
      have "\<bar>a ! j ! i\<bar> \<le> 0" if "i \<le> j" "j < n" for j
        using pmax [OF that] True a1ii by simp
      then have z: "a ! j ! i = 0" if "i \<le> j" "j < n" for j
        using that by fastforce
      show ?thesis
        using that la i p z [of r] z [of p] z [of i]
        by (auto simp: a1_def nth_list_update)
    qed
    have "\<exists>y. y i = 1 \<and> (\<forall>r<n. row_dot n (a1 ! r) y = 0)"
    proof (rule kernel_vector [OF i])
      show "a1 ! r ! r \<noteq> 0" if "r < i" for r
        using dn1 that i by (simp add: diag_nonzero_def)
      show "a1 ! r ! k = 0" if "r < n" "k < i" "k < r" for r k
        using lz1 that i by (simp add: lower_zero_def)
      show "a1 ! r ! i = 0" if "i \<le> r" "r < n" for r
        using that by (rule col)
    qed
    then obtain y where y: "y i = (1::real)" "\<And>r. r < n \<Longrightarrow> row_dot n (a1 ! r) y = 0"
      by blast
    have "solves n a1 b1 y 0" using y(2) by (simp add: solves_def)
    then have "solves n a b y 0" using sw by simp
    moreover have "\<exists>k<n. y k \<noteq> 0" using y(1) i by (intro exI [of _ i]) simp
    ultimately show ?thesis using unfold True by auto
  next
    case False
    define a2 where "a2 = reduced_a i n n a1"
    define b2 where "b2 = reduced_b i n a1 b1"
    have nz: "i + 1 < n \<Longrightarrow> a1 ! i ! i \<noteq> 0" using False by simp
    have wf2: "wf_system n a2 b2"
      unfolding a2_def b2_def using wf1 by (rule wf_reduced)
    have lz2: "lower_zero n (i + 1) a2"
      unfolding a2_def using wf1 lz1 i nz by (rule lower_zero_reduced)
    have dn2: "diag_nonzero n (i + 1) a2"
      unfolding a2_def using dn1 la1 nz by (rule diag_nonzero_reduced)
    have z: "a1 ! i ! k = 0" if "k < i" for k
      using lz1 that i p
      by (simp add: lower_zero_def a1_def la nth_list_update)
    have red: "solves n a2 b2 y t \<longleftrightarrow> solves n a b y t" for y t
      unfolding a2_def b2_def using solves_reduced [OF wf1 i z] sw by simp
    have step: "eliminate i n a b = eliminate (i + 1) n a2 b2"
      unfolding unfold a2_def b2_def using False by (simp only: if_False)
    have "d = n - (i + 1)" using Suc.hyps(2) by simp
    from Suc.hyps(1) [OF this wf2 _ lz2 dn2] i
    have "(\<exists>a' b'. eliminate (i + 1) n a2 b2 = Inr (a', b') \<and> wf_system n a' b' \<and> lower_zero n n a'
            \<and> diag_nonzero n n a' \<and> (\<forall>y t. solves n a' b' y t \<longleftrightarrow> solves n a2 b2 y t))
         \<or> (eliminate (i + 1) n a2 b2 = Inl NonFinite \<and> (\<exists>y. solves n a2 b2 y 0 \<and> (\<exists>k<n. y k \<noteq> 0)))"
      by simp
    then show ?thesis unfolding step red by simp
  qed
qed

subsection \<open>Back substitution and the solve\<close>

lemma sum_loop:
  fixes g :: "nat \<Rightarrow> real"
  assumes "l \<le> m"
  shows "for_loop l m (\<lambda>j sum. sum + g j) s = s + (\<Sum>j\<in>{l..<m}. g j)"
  using assms
proof (induction m)
  case 0
  then show ?case by simp
next
  case (Suc m)
  show ?case
  proof (cases "l = Suc m")
    case True
    then show ?thesis by simp
  next
    case False
    then have lm: "l \<le> m" using Suc.prems by simp
    show ?thesis
      using Suc.IH [OF lm] lm by (simp add: for_loop_Suc)
  qed
qed

lemma back_main:
  assumes "length x = n" "i \<le> n"
    and "\<And>r. i \<le> r \<Longrightarrow> r < n \<Longrightarrow> (\<Sum>k\<in>{r..<n}. a ! r ! k * x ! k) = b ! r"
  shows "(\<exists>x'. backSubstitute i n a b x = Inr x' \<and> length x' = n
            \<and> (\<forall>r<n. (\<Sum>k\<in>{r..<n}. a ! r ! k * x' ! k) = b ! r))
         \<or> (backSubstitute i n a b x = Inl NonFinite \<and> (\<exists>r<i. a ! r ! r = 0))"
  using assms
proof (induction i arbitrary: x)
  case 0
  then show ?case by simp
next
  case (Suc i)
  have i: "i < n" using Suc.prems(2) by simp
  define s where "s = (\<Sum>j\<in>{i + 1..<n}. a ! i ! j * x ! j)"
  have loop: "for_loop (Suc i) n (\<lambda>j sum. sum + a ! i ! j * x ! j) 0 = s"
    using sum_loop [of "i + 1" n "\<lambda>j. a ! i ! j * x ! j" 0] i by (simp add: s_def)
  show ?case
  proof (cases "a ! i ! i = 0")
    case True
    then show ?thesis by (auto simp: Let_def)
  next
    case False
    define x2 where "x2 = x [i := (b ! i - s) / a ! i ! i]"
    have l2: "length x2 = n" using Suc.prems(1) by (simp add: x2_def)
    have same: "x2 ! k = x ! k" if "i < k" for k
      using that by (simp add: x2_def)
    have rows: "(\<Sum>k\<in>{r..<n}. a ! r ! k * x2 ! k) = b ! r" if "i \<le> r" "r < n" for r
    proof (cases "r = i")
      case True
      have "(\<Sum>k\<in>{i..<n}. a ! i ! k * x2 ! k) = a ! i ! i * x2 ! i + (\<Sum>k\<in>{i + 1..<n}. a ! i ! k * x2 ! k)"
        using i by (simp add: sum.atLeast_Suc_lessThan)
      also have "(\<Sum>k\<in>{i + 1..<n}. a ! i ! k * x2 ! k) = s"
        unfolding s_def by (intro sum.cong) (simp_all add: same)
      also have "a ! i ! i * x2 ! i + s = b ! i"
        using False i Suc.prems(1) by (simp add: x2_def)
      finally show ?thesis using True by simp
    next
      case F: False
      then have r: "Suc i \<le> r" using that(1) by simp
      have "(\<Sum>k\<in>{r..<n}. a ! r ! k * x2 ! k) = (\<Sum>k\<in>{r..<n}. a ! r ! k * x ! k)"
        by (intro sum.cong) (use r in \<open>simp_all add: same\<close>)
      then show ?thesis using Suc.prems(3) [OF r that(2)] by simp
    qed
    have step: "backSubstitute (Suc i) n a b x = backSubstitute i n a b x2"
      using False by (simp add: Let_def loop x2_def)
    from Suc.IH [OF l2 _ rows] i
    have "(\<exists>x'. backSubstitute i n a b x2 = Inr x' \<and> length x' = n
            \<and> (\<forall>r<n. (\<Sum>k\<in>{r..<n}. a ! r ! k * x' ! k) = b ! r))
         \<or> (backSubstitute i n a b x2 = Inl NonFinite \<and> (\<exists>r<i. a ! r ! r = 0))"
      by simp
    then show ?thesis unfolding step using less_Suc_eq by auto
  qed
qed

lemma row_dot_upper:
  assumes "r < n" "\<And>k. k < r \<Longrightarrow> u ! k = 0"
  shows "row_dot n u y = (\<Sum>k\<in>{r..<n}. u ! k * y k)"
proof -
  have "row_dot n u y = (\<Sum>k\<in>{0..<r}. u ! k * y k) + (\<Sum>k\<in>{r..<n}. u ! k * y k)"
    unfolding row_dot_def lessThan_atLeast0
    using assms(1) by (simp add: sum.atLeastLessThan_concat)
  also have "(\<Sum>k\<in>{0..<r}. u ! k * y k) = (\<Sum>k\<in>{0..<r}. 0)"
    by (intro sum.cong) (simp_all add: assms(2))
  finally show ?thesis by simp
qed

lemma solve_main:
  assumes wf: "wf_system n a b"
  shows "(\<exists>a' b' x. eliminate 0 n a b = Inr (a', b')
            \<and> backSubstitute n n a' b' (replicate n 0) = Inr x
            \<and> length x = n \<and> solves n a b (\<lambda>k. x ! k) 1)
         \<or> ((eliminate 0 n a b = Inl NonFinite
              \<or> (\<exists>a' b'. eliminate 0 n a b = Inr (a', b')
                    \<and> backSubstitute n n a' b' (replicate n 0) = Inl NonFinite))
             \<and> (\<exists>y. solves n a b y 0 \<and> (\<exists>k<n. y k \<noteq> 0)))"
proof -
  have lz: "lower_zero n 0 a" and dn: "diag_nonzero n 0 a"
    by (simp_all add: lower_zero_def diag_nonzero_def)
  from eliminate_main [OF wf _ lz dn]
  consider (ok) a' b' where "eliminate 0 n a b = Inr (a', b')" "wf_system n a' b'" "lower_zero n n a'"
      "diag_nonzero n n a'" "\<And>y t. solves n a' b' y t \<longleftrightarrow> solves n a b y t"
    | (sing) "eliminate 0 n a b = Inl NonFinite" "\<exists>y. solves n a b y 0 \<and> (\<exists>k<n. y k \<noteq> 0)"
    by auto
  then show ?thesis
  proof cases
    case sing
    then show ?thesis by simp
  next
    case ok
    from back_main [of "replicate n 0" n n a' b']
    consider (x) x where "backSubstitute n n a' b' (replicate n 0) = Inr x" "length x = n"
        "\<And>r. r < n \<Longrightarrow> (\<Sum>k\<in>{r..<n}. a' ! r ! k * x ! k) = b' ! r"
      | (fail) r where "backSubstitute n n a' b' (replicate n 0) = Inl NonFinite" "r < n" "a' ! r ! r = 0"
      by auto
    then show ?thesis
    proof cases
      case x
      have "row_dot n (a' ! r) (\<lambda>k. x ! k) = 1 * b' ! r" if "r < n" for r
      proof -
        have "a' ! r ! k = 0" if "k < r" for k
          using ok(3) that \<open>r < n\<close> by (simp add: lower_zero_def)
        then show ?thesis using row_dot_upper [OF \<open>r < n\<close>, of "a' ! r" "\<lambda>k. x ! k"] x(3) [OF \<open>r < n\<close>]
          by simp
      qed
      then have "solves n a' b' (\<lambda>k. x ! k) 1" by (simp add: solves_def)
      then have "solves n a b (\<lambda>k. x ! k) 1" using ok(5) by simp
      then show ?thesis using ok(1) x(1,2) by simp
    next
      case fail
      have "\<exists>y. y r = 1 \<and> (\<forall>q<n. row_dot n (a' ! q) y = 0)"
      proof (rule kernel_vector [OF fail(2)])
        show "a' ! q ! q \<noteq> 0" if "q < r" for q
          using ok(4) that fail(2) by (simp add: diag_nonzero_def)
        show "a' ! q ! k = 0" if "q < n" "k < r" "k < q" for q k
          using ok(3) that fail(2) by (simp add: lower_zero_def)
        show "a' ! q ! r = 0" if "r \<le> q" "q < n" for q
        proof (cases "q = r")
          case True
          then show ?thesis using fail(3) by simp
        next
          case False
          then show ?thesis using ok(3) that fail(2) by (simp add: lower_zero_def)
        qed
      qed
      then obtain y where y: "y r = (1::real)" "\<And>q. q < n \<Longrightarrow> row_dot n (a' ! q) y = 0"
        by blast
      have "solves n a' b' y 0" using y(2) by (simp add: solves_def)
      then have "solves n a b y 0" using ok(5) by simp
      moreover have "\<exists>k<n. y k \<noteq> 0" using y(1) fail(2) by (intro exI [of _ r]) simp
      ultimately show ?thesis using ok(1) fail(1) by auto
    qed
  qed
qed

subsection \<open>The homography of a rectangle\<close>

lemma for_loop_0_4: "for_loop 0 4 body s = body 3 (body 2 (body 1 (body 0 s)))"
  by (simp add: for_loop_fold upt_rec numeral_nat)

lemma equations_eq:
  "equations src dst =
     ([[px (src ! 0), py (src ! 0), 1, 0, 0, 0, - px (src ! 0) * px (dst ! 0), - py (src ! 0) * px (dst ! 0)],
       [0, 0, 0, px (src ! 0), py (src ! 0), 1, - px (src ! 0) * py (dst ! 0), - py (src ! 0) * py (dst ! 0)],
       [px (src ! 1), py (src ! 1), 1, 0, 0, 0, - px (src ! 1) * px (dst ! 1), - py (src ! 1) * px (dst ! 1)],
       [0, 0, 0, px (src ! 1), py (src ! 1), 1, - px (src ! 1) * py (dst ! 1), - py (src ! 1) * py (dst ! 1)],
       [px (src ! 2), py (src ! 2), 1, 0, 0, 0, - px (src ! 2) * px (dst ! 2), - py (src ! 2) * px (dst ! 2)],
       [0, 0, 0, px (src ! 2), py (src ! 2), 1, - px (src ! 2) * py (dst ! 2), - py (src ! 2) * py (dst ! 2)],
       [px (src ! 3), py (src ! 3), 1, 0, 0, 0, - px (src ! 3) * px (dst ! 3), - py (src ! 3) * px (dst ! 3)],
       [0, 0, 0, px (src ! 3), py (src ! 3), 1, - px (src ! 3) * py (dst ! 3), - py (src ! 3) * py (dst ! 3)]],
      [px (dst ! 0), py (dst ! 0), px (dst ! 1), py (dst ! 1),
       px (dst ! 2), py (dst ! 2), px (dst ! 3), py (dst ! 3)])"
  unfolding equations_def for_loop_0_4 by (simp add: Let_def)

lemma wf_equations: "equations src dst = (a, b) \<Longrightarrow> wf_system 8 a b"
proof -
  assume e: "equations src dst = (a, b)"
  have e8: "r < 8 \<longleftrightarrow> (r = 0 \<or> r = 1 \<or> r = 2 \<or> r = 3 \<or> r = 4 \<or> r = 5 \<or> r = 6 \<or> r = 7)" for r :: nat
    by arith
  show ?thesis
    using e unfolding equations_eq wf_system_def e8 by auto
qed

lemma getHomographyMatrix_unfold:
  "getHomographyMatrix src dst =
     (if length src < 4 \<or> length dst < 4 then Inl TypeError
      else (case eliminate 0 8 (fst (equations src dst)) (snd (equations src dst)) of
              Inl e \<Rightarrow> Inl e
            | Inr (a', b') \<Rightarrow>
                (case backSubstitute 8 8 a' b' (replicate 8 0) of
                   Inl e \<Rightarrow> Inl e
                 | Inr x \<Rightarrow> Inr (x @ [1]))))"
  unfolding getHomographyMatrix_def equations_def [symmetric]
  by (simp add: Let_def split: prod.splits)

lemma getHomographyMatrix_main:
  assumes "4 \<le> length src" "4 \<le> length dst"
  shows "(\<exists>x. getHomographyMatrix src dst = Inr (x @ [1]) \<and> length x = 8
            \<and> solves 8 (fst (equations src dst)) (snd (equations src dst)) (\<lambda>k. x ! k) 1)
         \<or> (getHomographyMatrix src dst = Inl NonFinite
             \<and> (\<exists>y. solves 8 (fst (equations src dst)) (snd (equations src dst)) y 0 \<and> (\<exists>k<8. y k \<noteq> 0)))"
proof -
  have wf: "wf_system 8 (fst (equations src dst)) (snd (equations src dst))"
    by (rule wf_equations) simp
  have not_short: "\<not> (length src < 4 \<or> length dst < 4)" using assms by simp
  from solve_main [OF wf] show ?thesis
    unfolding getHomographyMatrix_unfold using not_short by auto
qed

text \<open>The eight equations, written out.\<close>

lemma solves_equations:
  "solves 8 (fst (equations src dst)) (snd (equations src dst)) y t \<longleftrightarrow>
     (\<forall>i<4. px (src ! i) * y 0 + py (src ! i) * y 1 + y 2
               - px (src ! i) * px (dst ! i) * y 6 - py (src ! i) * px (dst ! i) * y 7 = t * px (dst ! i)
           \<and> px (src ! i) * y 3 + py (src ! i) * y 4 + y 5
               - px (src ! i) * py (dst ! i) * y 6 - py (src ! i) * py (dst ! i) * y 7 = t * py (dst ! i))"
proof -
  have e8: "r < 8 \<longleftrightarrow> (r = 0 \<or> r = 1 \<or> r = 2 \<or> r = 3 \<or> r = 4 \<or> r = 5 \<or> r = 6 \<or> r = 7)" for r :: nat
    by arith
  have e4: "r < 4 \<longleftrightarrow> (r = 0 \<or> r = 1 \<or> r = 2 \<or> r = 3)" for r :: nat
    by arith
  have all8: "(\<forall>r<8. P r) \<longleftrightarrow> P 0 \<and> P 1 \<and> P 2 \<and> P 3 \<and> P 4 \<and> P 5 \<and> P 6 \<and> P (7::nat)" for P
    unfolding e8 by blast
  have all4: "(\<forall>r<4. P r) \<longleftrightarrow> P 0 \<and> P 1 \<and> P 2 \<and> P (3::nat)" for P
    unfolding e4 by blast
  have sum8: "(\<Sum>k<8. g k) = g 0 + g 1 + g 2 + g 3 + g 4 + g 5 + g 6 + g (7::nat)" for g :: "nat \<Rightarrow> real"
    by (simp add: eval_nat_numeral lessThan_Suc)
  show ?thesis
    unfolding solves_def row_dot_def all8 all4 sum8 equations_eq fst_conv snd_conv
    by (simp add: algebra_simps) 
qed

lemma rect_equations:
  "solves 8 (fst (equations (dstPts width height) corners)) (snd (equations (dstPts width height) corners)) y t
   \<longleftrightarrow>
     (y 2 = t * px (corners ! 0)
      \<and> y 5 = t * py (corners ! 0)
      \<and> real width * y 0 + y 2 - real width * px (corners ! 1) * y 6 = t * px (corners ! 1)
      \<and> real width * y 3 + y 5 - real width * py (corners ! 1) * y 6 = t * py (corners ! 1)
      \<and> real width * y 0 + real height * y 1 + y 2
          - real width * px (corners ! 2) * y 6 - real height * px (corners ! 2) * y 7 = t * px (corners ! 2)
      \<and> real width * y 3 + real height * y 4 + y 5
          - real width * py (corners ! 2) * y 6 - real height * py (corners ! 2) * y 7 = t * py (corners ! 2)
      \<and> real height * y 1 + y 2 - real height * px (corners ! 3) * y 7 = t * px (corners ! 3)
      \<and> real height * y 4 + y 5 - real height * py (corners ! 3) * y 7 = t * py (corners ! 3))"
proof -
  have e4: "r < 4 \<longleftrightarrow> (r = 0 \<or> r = 1 \<or> r = 2 \<or> r = 3)" for r :: nat
    by arith
  have all4: "(\<forall>r<4. P r) \<longleftrightarrow> P 0 \<and> P 1 \<and> P 2 \<and> P (3::nat)" for P
    unfolding e4 by blast
  show ?thesis
    unfolding solves_equations all4 by (simp add: dstPts_def)
qed

lemma rect_kernel:
  fixes y :: "nat \<Rightarrow> real"
  assumes W: "0 < width" and H: "0 < height"
    and nc: "\<not> collinear3 (corners ! 1) (corners ! 2) (corners ! 3)"
    and s: "solves 8 (fst (equations (dstPts width height) corners)) (snd (equations (dstPts width height) corners)) y 0"
  shows "y 0 = 0 \<and> y 1 = 0 \<and> y 2 = 0 \<and> y 3 = 0 \<and> y 4 = 0 \<and> y 5 = 0 \<and> y 6 = 0 \<and> y 7 = 0"
proof -
  define w where "w = real width"
  define h where "h = real height"
  define X1 where "X1 = px (corners ! 1)"
  define Y1 where "Y1 = py (corners ! 1)"
  define X2 where "X2 = px (corners ! 2)"
  define Y2 where "Y2 = py (corners ! 2)"
  define X3 where "X3 = px (corners ! 3)"
  define Y3 where "Y3 = py (corners ! 3)"
  have w: "w \<noteq> 0" and h: "h \<noteq> 0" using W H by (simp_all add: w_def h_def)
  have D: "(X2 - X1) * (Y3 - Y1) - (X3 - X1) * (Y2 - Y1) \<noteq> 0"
    using nc by (simp add: collinear3_def X1_def X2_def X3_def Y1_def Y2_def Y3_def)
  have c: "y 2 = 0" and f: "y 5 = 0"
    and e1: "w * y 0 + y 2 - w * X1 * y 6 = 0"
    and f1: "w * y 3 + y 5 - w * Y1 * y 6 = 0"
    and e2: "w * y 0 + h * y 1 + y 2 - w * X2 * y 6 - h * X2 * y 7 = 0"
    and f2: "w * y 3 + h * y 4 + y 5 - w * Y2 * y 6 - h * Y2 * y 7 = 0"
    and e3: "h * y 1 + y 2 - h * X3 * y 7 = 0"
    and f3: "h * y 4 + y 5 - h * Y3 * y 7 = 0"
    using s [unfolded rect_equations mult_zero_left]
    unfolding w_def h_def X1_def X2_def X3_def Y1_def Y2_def Y3_def by blast+
  define p where "p = w * y 6"
  define q where "q = h * y 7"
  have a1: "w * y 0 = X1 * p" using e1 c unfolding p_def by algebra
  have b1: "h * y 1 = X3 * q" using e3 c unfolding q_def by algebra
  have d1: "w * y 3 = Y1 * p" using f1 f unfolding p_def by algebra
  have g1: "h * y 4 = Y3 * q" using f3 f unfolding q_def by algebra
  have ex: "p * (X1 - X2) + q * (X3 - X2) = 0"
    using e2 c a1 b1 unfolding p_def q_def by algebra
  have ey: "p * (Y1 - Y2) + q * (Y3 - Y2) = 0"
    using f2 f d1 g1 unfolding p_def q_def by algebra
  have "p * ((X2 - X1) * (Y3 - Y1) - (X3 - X1) * (Y2 - Y1)) = 0"
  proof -
    have "p * ((X2 - X1) * (Y3 - Y1) - (X3 - X1) * (Y2 - Y1))
          = (p * (Y1 - Y2) + q * (Y3 - Y2)) * (X3 - X2) - (p * (X1 - X2) + q * (X3 - X2)) * (Y3 - Y2)"
      by (simp add: algebra_simps)
    then show ?thesis unfolding ex ey by simp
  qed
  then have p0: "p = 0" using D by simp
  have "q * ((X2 - X1) * (Y3 - Y1) - (X3 - X1) * (Y2 - Y1)) = 0"
  proof -
    have "q * ((X2 - X1) * (Y3 - Y1) - (X3 - X1) * (Y2 - Y1))
          = (p * (X1 - X2) + q * (X3 - X2)) * (Y1 - Y2) - (p * (Y1 - Y2) + q * (Y3 - Y2)) * (X1 - X2)"
      by (simp add: algebra_simps)
    then show ?thesis unfolding ex ey by simp
  qed
  then have q0: "q = 0" using D by simp
  have "y 6 = 0" using p0 w by (simp add: p_def)
  moreover have "y 7 = 0" using q0 h by (simp add: q_def)
  moreover have "y 0 = 0" using a1 p0 w by simp
  moreover have "y 1 = 0" using b1 q0 h by simp
  moreover have "y 3 = 0" using d1 p0 w by simp
  moreover have "y 4 = 0" using g1 q0 h by simp
  ultimately show ?thesis using c f by simp
qed

lemma homography_solution:
  assumes nd: "nondegenerate corners" and W: "0 < width" and H: "0 < height"
  shows "\<exists>x. getHomographyMatrix (dstPts width height) corners = Inr (x @ [1]) \<and> length x = 8
           \<and> solves 8 (fst (equations (dstPts width height) corners))
                      (snd (equations (dstPts width height) corners)) (\<lambda>k. x ! k) 1"
proof -
  have len: "4 \<le> length (dstPts width height)" "4 \<le> length corners"
    using nd by (simp_all add: dstPts_def nondegenerate_def)
  have nc: "\<not> collinear3 (corners ! 1) (corners ! 2) (corners ! 3)"
    using nd by (simp add: nondegenerate_def)
  have "\<not> (\<exists>y. solves 8 (fst (equations (dstPts width height) corners))
                      (snd (equations (dstPts width height) corners)) y 0 \<and> (\<exists>k<8. y k \<noteq> 0))"
  proof
    assume "\<exists>y. solves 8 (fst (equations (dstPts width height) corners))
                      (snd (equations (dstPts width height) corners)) y 0 \<and> (\<exists>k<8. y k \<noteq> 0)"
    then obtain y k where y: "solves 8 (fst (equations (dstPts width height) corners))
                      (snd (equations (dstPts width height) corners)) y 0" and k: "k < 8" "y k \<noteq> 0"
      by blast
    have e8: "r < 8 \<longleftrightarrow> (r = 0 \<or> r = 1 \<or> r = 2 \<or> r = 3 \<or> r = 4 \<or> r = 5 \<or> r = 6 \<or> r = 7)" for r :: nat
      by arith
    from rect_kernel [OF W H nc y] k show False
      unfolding e8 by auto
  qed
  then show ?thesis using getHomographyMatrix_main [OF len] by blast
qed

lemma homography_maps_corners:
  fixes x :: "real list"
  assumes nd: "nondegenerate corners" and W: "0 < width" and H: "0 < height"
    and s: "solves 8 (fst (equations (dstPts width height) corners))
                     (snd (equations (dstPts width height) corners)) (\<lambda>k. x ! k) 1"
  shows "x ! 2 = px (corners ! 0) \<and> x ! 5 = py (corners ! 0)"
    and "x ! 6 * real width + 1 \<noteq> 0"
    and "x ! 0 * real width + x ! 2 = px (corners ! 1) * (x ! 6 * real width + 1)"
    and "x ! 3 * real width + x ! 5 = py (corners ! 1) * (x ! 6 * real width + 1)"
    and "x ! 6 * real width + x ! 7 * real height + 1 \<noteq> 0"
    and "x ! 0 * real width + x ! 1 * real height + x ! 2
           = px (corners ! 2) * (x ! 6 * real width + x ! 7 * real height + 1)"
    and "x ! 3 * real width + x ! 4 * real height + x ! 5
           = py (corners ! 2) * (x ! 6 * real width + x ! 7 * real height + 1)"
    and "x ! 7 * real height + 1 \<noteq> 0"
    and "x ! 1 * real height + x ! 2 = px (corners ! 3) * (x ! 7 * real height + 1)"
    and "x ! 4 * real height + x ! 5 = py (corners ! 3) * (x ! 7 * real height + 1)"
proof -
  define w where "w = real width"
  define h where "h = real height"
  define X0 where "X0 = px (corners ! 0)"
  define Y0 where "Y0 = py (corners ! 0)"
  define X1 where "X1 = px (corners ! 1)"
  define Y1 where "Y1 = py (corners ! 1)"
  define X2 where "X2 = px (corners ! 2)"
  define Y2 where "Y2 = py (corners ! 2)"
  define X3 where "X3 = px (corners ! 3)"
  define Y3 where "Y3 = py (corners ! 3)"
  have n012: "(X1 - X0) * (Y2 - Y0) - (X2 - X0) * (Y1 - Y0) \<noteq> 0"
    and n013: "(X1 - X0) * (Y3 - Y0) - (X3 - X0) * (Y1 - Y0) \<noteq> 0"
    and n023: "(X2 - X0) * (Y3 - Y0) - (X3 - X0) * (Y2 - Y0) \<noteq> 0"
    using nd
    by (simp_all add: nondegenerate_def collinear3_def X0_def X1_def X2_def X3_def Y0_def Y1_def Y2_def Y3_def)
  have c: "x ! 2 = 1 * X0" and f: "x ! 5 = 1 * Y0"
    and e1: "w * x ! 0 + x ! 2 - w * X1 * x ! 6 = 1 * X1"
    and f1: "w * x ! 3 + x ! 5 - w * Y1 * x ! 6 = 1 * Y1"
    and e2: "w * x ! 0 + h * x ! 1 + x ! 2 - w * X2 * x ! 6 - h * X2 * x ! 7 = 1 * X2"
    and f2: "w * x ! 3 + h * x ! 4 + x ! 5 - w * Y2 * x ! 6 - h * Y2 * x ! 7 = 1 * Y2"
    and e3: "h * x ! 1 + x ! 2 - h * X3 * x ! 7 = 1 * X3"
    and f3: "h * x ! 4 + x ! 5 - h * Y3 * x ! 7 = 1 * Y3"
    using s [unfolded rect_equations]
    unfolding w_def h_def X0_def Y0_def X1_def X2_def X3_def Y1_def Y2_def Y3_def by blast+
  show "x ! 2 = px (corners ! 0) \<and> x ! 5 = py (corners ! 0)"
    using c f by (simp add: X0_def Y0_def)
  show "x ! 6 * real width + 1 \<noteq> 0"
  proof
    assume z: "x ! 6 * real width + 1 = 0"
    have "(X2 - X0) * (Y3 - Y0) - (X3 - X0) * (Y2 - Y0) = 0"
      using c f e1 f1 e2 f2 e3 f3 z unfolding w_def [symmetric] by algebra
    then show False using n023 by simp
  qed
  show "x ! 6 * real width + x ! 7 * real height + 1 \<noteq> 0"
  proof
    assume z: "x ! 6 * real width + x ! 7 * real height + 1 = 0"
    have "(X1 - X0) * (Y3 - Y0) - (X3 - X0) * (Y1 - Y0) = 0"
      using c f e1 f1 e2 f2 e3 f3 z unfolding w_def [symmetric] h_def [symmetric] by algebra
    then show False using n013 by simp
  qed
  show "x ! 7 * real height + 1 \<noteq> 0"
  proof
    assume z: "x ! 7 * real height + 1 = 0"
    have "(X1 - X0) * (Y2 - Y0) - (X2 - X0) * (Y1 - Y0) = 0"
      using c f e1 f1 e2 f2 e3 f3 z unfolding h_def [symmetric] by algebra
    then show False using n012 by simp
  qed
  show "x ! 0 * real width + x ! 2 = px (corners ! 1) * (x ! 6 * real width + 1)"
    using e1 unfolding w_def X1_def by algebra
  show "x ! 3 * real width + x ! 5 = py (corners ! 1) * (x ! 6 * real width + 1)"
    using f1 unfolding w_def Y1_def by algebra
  show "x ! 0 * real width + x ! 1 * real height + x ! 2
           = px (corners ! 2) * (x ! 6 * real width + x ! 7 * real height + 1)"
    using e2 unfolding w_def h_def X2_def by algebra
  show "x ! 3 * real width + x ! 4 * real height + x ! 5
           = py (corners ! 2) * (x ! 6 * real width + x ! 7 * real height + 1)"
    using f2 unfolding w_def h_def Y2_def by algebra
  show "x ! 1 * real height + x ! 2 = px (corners ! 3) * (x ! 7 * real height + 1)"
    using e3 unfolding h_def X3_def by algebra
  show "x ! 4 * real height + x ! 5 = py (corners ! 3) * (x ! 7 * real height + 1)"
    using f3 unfolding h_def Y3_def by algebra
qed

lemma solves_diff:
  assumes "solves n a b y 1" "solves n a b y' 1"
  shows "solves n a b (\<lambda>k. y k - y' k) 0"
  unfolding solves_def
proof (intro allI impI)
  fix r assume r: "r < n"
  have "row_dot n (a ! r) (\<lambda>k. y k - y' k) = row_dot n (a ! r) y - row_dot n (a ! r) y'"
    by (simp add: row_dot_def sum_subtractf algebra_simps)
  then show "row_dot n (a ! r) (\<lambda>k. y k - y' k) = 0 * b ! r"
    using assms r by (simp add: solves_def)
qed

lemma homography_unique:
  assumes nd: "nondegenerate corners" and W: "0 < width" and H: "0 < height"
    and l': "length x' = 8"
    and s': "solves 8 (fst (equations (dstPts width height) corners))
                      (snd (equations (dstPts width height) corners)) (\<lambda>k. x' ! k) 1"
  shows "getHomographyMatrix (dstPts width height) corners = Inr (x' @ [1])"
proof -
  from homography_solution [OF nd W H] obtain x where
    h: "getHomographyMatrix (dstPts width height) corners = Inr (x @ [1])" and l: "length x = 8"
    and s: "solves 8 (fst (equations (dstPts width height) corners))
                     (snd (equations (dstPts width height) corners)) (\<lambda>k. x ! k) 1"
    by blast
  have nc: "\<not> collinear3 (corners ! 1) (corners ! 2) (corners ! 3)"
    using nd by (simp add: nondegenerate_def)
  have z: "x ! 0 - x' ! 0 = 0 \<and> x ! 1 - x' ! 1 = 0 \<and> x ! 2 - x' ! 2 = 0 \<and> x ! 3 - x' ! 3 = 0
           \<and> x ! 4 - x' ! 4 = 0 \<and> x ! 5 - x' ! 5 = 0 \<and> x ! 6 - x' ! 6 = 0 \<and> x ! 7 - x' ! 7 = 0"
    using rect_kernel [OF W H nc solves_diff [OF s s']] .
  have e8: "r < 8 \<longleftrightarrow> (r = 0 \<or> r = 1 \<or> r = 2 \<or> r = 3 \<or> r = 4 \<or> r = 5 \<or> r = 6 \<or> r = 7)" for r :: nat
    by arith
  have "x = x'"
  proof (rule nth_equalityI)
    show "length x = length x'" using l l' by simp
  next
    fix k assume "k < length x"
    then have "k < 8" using l by simp
    then show "x ! k = x' ! k" unfolding e8 using z by auto
  qed
  then show ?thesis using h by simp
qed

subsection \<open>The round trip\<close>

text \<open>
  C1 as stated, for every non-degenerate Corner Set, does not hold: the canonical
  destination rectangle is computed with a floor, so a Corner Set with no three points on
  one line can have a destination of height (or width) 0. For the flat corner set the
  destination is 100 by 0: the destination corners of index 0 and 3 are both \<open>(0, 0)\<close>
  while the source corners of index 0 and 3 differ, so the eight equations have no
  solution, the elimination meets a zero pivot (a division by zero in
  \<open>getHomographyMatrix\<close>), and no matrix at all maps both destination corners to their
  source corners.
\<close>

theorem flat_strip_has_no_round_trip:
  "nondegenerate strip
   \<and> destinationSize strip = (100, 0)
   \<and> getHomographyMatrix (dstPts 100 0) strip = Inl NonFinite
   \<and> (\<forall>h. \<not> ((case mapped h (px (dstPts 100 0 ! 0)) (py (dstPts 100 0 ! 0)) of
                      (u, v, w) \<Rightarrow> w \<noteq> 0 \<and> u / w = px (strip ! 0) \<and> v / w = py (strip ! 0))
                \<and> (case mapped h (px (dstPts 100 0 ! 3)) (py (dstPts 100 0 ! 3)) of
                      (u, v, w) \<Rightarrow> w \<noteq> 0 \<and> u / w = px (strip ! 3) \<and> v / w = py (strip ! 3))))"
proof (intro conjI)
  show "nondegenerate strip"
    by (simp add: nondegenerate_def collinear3_def strip_def)
  have s100: "sqrt 10000 = 100" by (rule real_sqrt_unique) simp_all
  have shalf: "sqrt (1 / 4) = 1 / 2" by (rule real_sqrt_unique) (simp_all add: power2_eq_square)
  show "destinationSize strip = (100, 0)"
    by (simp add: destinationSize_def Let_def strip_def s100 shalf power2_eq_square)
  show "getHomographyMatrix (dstPts 100 0) strip = Inl NonFinite"
  proof -
    have l: "4 \<le> length (dstPts 100 0)" "4 \<le> length strip"
      by (simp_all add: dstPts_def strip_def)
    have no: "\<not> solves 8 (fst (equations (dstPts 100 0) strip)) (snd (equations (dstPts 100 0) strip)) y 1" for y
    proof
      assume "solves 8 (fst (equations (dstPts 100 0) strip)) (snd (equations (dstPts 100 0) strip)) y 1"
      then have a: "\<And>i. i < 4 \<Longrightarrow>
          px (dstPts 100 0 ! i) * y 3 + py (dstPts 100 0 ! i) * y 4 + y 5
            - px (dstPts 100 0 ! i) * py (strip ! i) * y 6 - py (dstPts 100 0 ! i) * py (strip ! i) * y 7
          = 1 * py (strip ! i)"
        unfolding solves_equations by blast
      from a [of 0] a [of 3] show False
        by (simp add: dstPts_def strip_def)
    qed
    from getHomographyMatrix_main [OF l] no show ?thesis by blast
  qed
  show "\<forall>h. \<not> ((case mapped h (px (dstPts 100 0 ! 0)) (py (dstPts 100 0 ! 0)) of
                      (u, v, w) \<Rightarrow> w \<noteq> 0 \<and> u / w = px (strip ! 0) \<and> v / w = py (strip ! 0))
                \<and> (case mapped h (px (dstPts 100 0 ! 3)) (py (dstPts 100 0 ! 3)) of
                      (u, v, w) \<Rightarrow> w \<noteq> 0 \<and> u / w = px (strip ! 3) \<and> v / w = py (strip ! 3)))"
    by (auto simp add: mapped_def dstPts_def strip_def)
qed

text \<open>
  C1, amended: for every non-degenerate Corner Set (four points, no three on one line)
  whose canonical destination rectangle \<open>(0,0), (W,0), (W,H), (0,H)\<close> has \<open>W\<close> and \<open>H\<close>
  positive (the theorem takes any positive \<open>W\<close> and \<open>H\<close>, so in particular the ones that
  \<open>warpPerspective\<close> computes), \<open>getHomographyMatrix(dstPts, srcPts)\<close>
  returns a matrix of nine entries, the last one 1, which maps each of the four destination
  corners, after the homogeneous division, to the source corner of the same index. In the
  real-number model the division is by a non-zero \<open>w\<close> and the correspondence is exact.
\<close>

theorem homography_round_trip:
  assumes "nondegenerate corners" and "0 < width" and "0 < height"
  shows "\<exists>h. getHomographyMatrix (dstPts width height) corners = Inr h
           \<and> length h = 9 \<and> h ! 8 = 1
           \<and> (\<forall>i<4. case mapped h (px (dstPts width height ! i)) (py (dstPts width height ! i)) of
                        (u, v, w) \<Rightarrow> w \<noteq> 0 \<and> u / w = px (corners ! i) \<and> v / w = py (corners ! i))"
proof -
  from homography_solution [OF assms] obtain x where
    h: "getHomographyMatrix (dstPts width height) corners = Inr (x @ [1])" and l: "length x = 8"
    and s: "solves 8 (fst (equations (dstPts width height) corners))
                     (snd (equations (dstPts width height) corners)) (\<lambda>k. x ! k) 1"
    by blast
  note m = homography_maps_corners [OF assms s]
  have nth: "(x @ [1]) ! k = x ! k" if "k < 8" for k
    using that l by (simp add: nth_append)
  have last: "(x @ [1]) ! 8 = 1"
    using l by (simp add: nth_append)
  have quot: "u / w = c" if "w \<noteq> 0" "u = c * w" for u w c :: real
    using that by simp
  have e4: "i < 4 \<longleftrightarrow> (i = 0 \<or> i = 1 \<or> i = 2 \<or> i = 3)" for i :: nat
    by arith
  have c0: "case mapped (x @ [1]) (px (dstPts width height ! 0)) (py (dstPts width height ! 0)) of
              (u, v, w) \<Rightarrow> w \<noteq> 0 \<and> u / w = px (corners ! 0) \<and> v / w = py (corners ! 0)"
    using m(1) by (simp add: mapped_def dstPts_def nth last)
  have c1: "case mapped (x @ [1]) (px (dstPts width height ! 1)) (py (dstPts width height ! 1)) of
              (u, v, w) \<Rightarrow> w \<noteq> 0 \<and> u / w = px (corners ! 1) \<and> v / w = py (corners ! 1)"
    using m(2) quot [OF m(2) m(3)] quot [OF m(2) m(4)]
    by (simp add: mapped_def dstPts_def nth last)
  have c2: "case mapped (x @ [1]) (px (dstPts width height ! 2)) (py (dstPts width height ! 2)) of
              (u, v, w) \<Rightarrow> w \<noteq> 0 \<and> u / w = px (corners ! 2) \<and> v / w = py (corners ! 2)"
    using m(5) quot [OF m(5) m(6)] quot [OF m(5) m(7)]
    by (simp add: mapped_def dstPts_def nth last)
  have c3: "case mapped (x @ [1]) (px (dstPts width height ! 3)) (py (dstPts width height ! 3)) of
              (u, v, w) \<Rightarrow> w \<noteq> 0 \<and> u / w = px (corners ! 3) \<and> v / w = py (corners ! 3)"
    using m(8) quot [OF m(8) m(9)] quot [OF m(8) m(10)]
    by (simp add: mapped_def dstPts_def nth last)
  have "\<forall>i<4. case mapped (x @ [1]) (px (dstPts width height ! i)) (py (dstPts width height ! i)) of
                        (u, v, w) \<Rightarrow> w \<noteq> 0 \<and> u / w = px (corners ! i) \<and> v / w = py (corners ! i)"
  proof (intro allI impI)
    fix i :: nat assume "i < 4"
    then have "i = 0 \<or> i = 1 \<or> i = 2 \<or> i = 3" by (simp only: e4)
    then show "case mapped (x @ [1]) (px (dstPts width height ! i)) (py (dstPts width height ! i)) of
                        (u, v, w) \<Rightarrow> w \<noteq> 0 \<and> u / w = px (corners ! i) \<and> v / w = py (corners ! i)"
      using c0 c1 c2 c3 by (elim disjE) simp_all
  qed
  then show ?thesis using h l last by simp
qed

text \<open>The round trip on the trapezoid, whose destination is 4 by 3: the destination
  corner (4, 3) is mapped to the source corner (3, 3).\<close>

theorem homography_round_trip_witness:
  "\<exists>h. getHomographyMatrix (dstPts 4 3) trapezoid = Inr h
     \<and> (case mapped h 4 3 of (u, v, w) \<Rightarrow> w \<noteq> 0 \<and> u / w = 3 \<and> v / w = 3)"
proof -
  have nd: "nondegenerate trapezoid"
    by (simp add: nondegenerate_def collinear3_def trapezoid_def)
  have pos: "(0::nat) < 4" "(0::nat) < 3" by simp_all
  from homography_round_trip [OF nd pos] obtain h where
    h: "getHomographyMatrix (dstPts 4 3) trapezoid = Inr h"
    and a: "\<And>i. i < 4 \<Longrightarrow> case mapped h (px (dstPts 4 3 ! i)) (py (dstPts 4 3 ! i)) of
                        (u, v, w) \<Rightarrow> w \<noteq> 0 \<and> u / w = px (trapezoid ! i) \<and> v / w = py (trapezoid ! i)"
    by blast
  have "case mapped h 4 3 of (u, v, w) \<Rightarrow> w \<noteq> 0 \<and> u / w = 3 \<and> v / w = 3"
    using a [of 2] by (simp add: dstPts_def trapezoid_def)
  with h show ?thesis by (intro exI [of _ h] conjI)
qed

subsection \<open>The destination\<close>

lemma toUint8Clamp_nat:
  assumes "n < 256"
  shows "toUint8Clamp (real n) = word_of_nat n"
proof -
  consider "n = 0" | "n = 255" | "0 < n" "n < 255"
    using assms by linarith
  then show ?thesis
  proof cases
    case 1
    then show ?thesis by (simp add: toUint8Clamp_def)
  next
    case 2
    then show ?thesis by (simp add: toUint8Clamp_def)
  next
    case 3
    have f: "\<lfloor>real n\<rfloor> = int n" by simp
    show ?thesis
      unfolding toUint8Clamp_def Let_def f using 3 by simp
  qed
qed

lemma toUint8Clamp_byte: "toUint8Clamp (real (unat (b :: 8 word))) = b"
proof -
  have "unat b < 2 ^ LENGTH(8)" by (rule unsigned_less)
  then have lt: "unat b < 256" by simp
  have "word_of_nat (unat b) = b" by simp
  then show ?thesis using toUint8Clamp_nat [OF lt] by (simp only:)
qed

lemma warpPerspective_Inr:
  assumes "warpPerspective img corners = Inr dst"
  shows "4 \<le> length corners" and "0 < dst_width dst" and "0 < dst_height dst"
    and "destinationSize corners = (dst_width dst, dst_height dst)"
    and "\<exists>h. getHomographyMatrix (dstPts (dst_width dst) (dst_height dst)) corners = Inr h
           \<and> dst_data dst = for_loop 0 (dst_height dst)
                 (\<lambda>y dData. for_loop 0 (dst_width dst) (\<lambda>x dData. pixelStep img h (dst_width dst) y x dData) dData)
                 (replicate (dst_width dst * dst_height dst * 4) 0)"
proof -
  obtain W H where size: "destinationSize corners = (W, H)"
    by (cases "destinationSize corners")
  have eq: "warpPerspective img corners =
     (if length corners < 4 then Inl TypeError
      else if W = 0 \<or> H = 0 then Inl IndexSizeError
      else (case getHomographyMatrix (dstPts W H) corners of
              Inl e \<Rightarrow> Inl e
            | Inr h \<Rightarrow>
                Inr \<lparr> dst_width = W, dst_height = H,
                      dst_data = for_loop 0 H
                                   (\<lambda>y dData. for_loop 0 W (\<lambda>x dData. pixelStep img h W y x dData) dData)
                                   (replicate (W * H * 4) 0) \<rparr>))"
    unfolding warpPerspective_def Let_def size prod.case ..
  have l: "\<not> length corners < 4" using assms unfolding eq by (auto split: if_splits)
  have z: "\<not> (W = 0 \<or> H = 0)" using assms l unfolding eq by (auto split: if_splits)
  from assms obtain h where h: "getHomographyMatrix (dstPts W H) corners = Inr h"
    and d: "dst = \<lparr> dst_width = W, dst_height = H,
                     dst_data = for_loop 0 H
                                   (\<lambda>y dData. for_loop 0 W (\<lambda>x dData. pixelStep img h W y x dData) dData)
                                   (replicate (W * H * 4) 0) \<rparr>"
    unfolding eq using l z by (auto split: sum.splits)
  show "4 \<le> length corners" using l by simp
  show "0 < dst_width dst" "0 < dst_height dst" using z d by simp_all
  show "destinationSize corners = (dst_width dst, dst_height dst)"
    using d size by simp
  show "\<exists>h. getHomographyMatrix (dstPts (dst_width dst) (dst_height dst)) corners = Inr h
           \<and> dst_data dst = for_loop 0 (dst_height dst)
                 (\<lambda>y dData. for_loop 0 (dst_width dst) (\<lambda>x dData. pixelStep img h (dst_width dst) y x dData) dData)
                 (replicate (dst_width dst * dst_height dst * 4) 0)"
    using h d by simp
qed

lemma warp_pixel:
  assumes w: "warpPerspective img corners = Inr dst"
    and h: "getHomographyMatrix (dstPts (dst_width dst) (dst_height dst)) corners = Inr h"
    and x: "x < dst_width dst" and y: "y < dst_height dst" and c: "c < 4"
  shows "dst_data dst ! ((y * dst_width dst + x) * 4 + c)
         = (if sampled img h x y
            then (case mapped h (real x) (real y) of
                    (u, v, w) \<Rightarrow>
                      [bilinear img (u / w) (v / w) 0, bilinear img (u / w) (v / w) 1,
                       bilinear img (u / w) (v / w) 2, 255] ! c)
            else 0)"
proof -
  let ?W = "dst_width dst" and ?H = "dst_height dst"
  let ?d = "replicate (?W * ?H * 4) (0 :: 8 word)"
  let ?k = "(y * ?W + x) * 4 + c"
  have data: "dst_data dst = for_loop 0 ?H
                 (\<lambda>y dData. for_loop 0 ?W (\<lambda>x dData. pixelStep img h ?W y x dData) dData) ?d"
    using warpPerspective_Inr(5) [OF w] h by auto
  have k: "?k \<in> block ?W y x" using c by (simp add: block_def)
  have "(y * ?W + x) * 4 + 4 \<le> ?W * ?H * 4"
  proof -
    have "y * ?W + x < y * ?W + ?W" using x by simp
    also have "\<dots> = Suc y * ?W" by simp
    also have "\<dots> \<le> ?H * ?W" using y by (intro mult_le_mono1) simp
    finally show ?thesis by (simp add: mult.commute)
  qed
  then have kl: "?k < length ?d" using c by simp
  have "dst_data dst ! ?k = pixelStep img h ?W y x ?d ! ?k"
    unfolding data by (rule warp_loops_pixel(1) [OF x y k]) simp
  also have "\<dots> = (if sampled img h x y
            then (case mapped h (real x) (real y) of
                    (u, v, w) \<Rightarrow>
                      [bilinear img (u / w) (v / w) 0, bilinear img (u / w) (v / w) 1,
                       bilinear img (u / w) (v / w) 2, 255] ! (?k - (y * ?W + x) * 4))
            else ?d ! ?k)"
    by (rule pixelStep_nth_block [OF k kl])
  also have "?d ! ?k = 0" using kl by simp
  finally show ?thesis by simp
qed

lemma rect_nondegenerate: "0 < width \<Longrightarrow> 0 < height \<Longrightarrow> nondegenerate (dstPts width height)"
  by (simp add: nondegenerate_def collinear3_def dstPts_def)

lemma rect_homography:
  assumes "0 < width" "0 < height"
  shows "getHomographyMatrix (dstPts width height) (dstPts width height) = Inr identity_matrix"
proof -
  have s: "solves 8 (fst (equations (dstPts width height) (dstPts width height)))
                    (snd (equations (dstPts width height) (dstPts width height)))
                    (\<lambda>k. [1, 0, 0, 0, 1, 0, 0, 0] ! k) 1"
    unfolding rect_equations by (simp add: dstPts_def)
  have "getHomographyMatrix (dstPts width height) (dstPts width height) = Inr ([1, 0, 0, 0, 1, 0, 0, 0] @ [1])"
    by (rule homography_unique [OF rect_nondegenerate [OF assms] assms _ s]) simp
  then show ?thesis by (simp add: identity_matrix_def)
qed

lemma rect_size:
  "destinationSize (dstPts width height) = (width, height)"
  by (simp add: destinationSize_def Let_def dstPts_def)

lemma rect_warp:
  assumes "0 < width" "0 < height"
  shows "warpPerspective img (dstPts width height) =
           Inr \<lparr> dst_width = width, dst_height = height,
                 dst_data = for_loop 0 height
                    (\<lambda>y dData. for_loop 0 width (\<lambda>x dData. pixelStep img identity_matrix width y x dData) dData)
                    (replicate (width * height * 4) 0) \<rparr>"
proof -
  have l: "\<not> length (dstPts width height) < 4" by (simp add: dstPts_def)
  show ?thesis
    unfolding warpPerspective_def Let_def rect_size prod.case
    using l assms by (simp add: rect_homography)
qed

lemma identity_sampled:
  "sampled img identity_matrix x y \<longleftrightarrow> x + 1 < img_width img \<and> y + 1 < img_height img"
  by (auto simp: sampled_def mapped_def identity_matrix_def)

lemma identity_mapped: "mapped identity_matrix x y = (x, y, 1)"
  by (simp add: mapped_def identity_matrix_def)

lemma rect_warp_pixel:
  assumes W: "0 < width" and H: "0 < height"
    and d: "warpPerspective img (dstPts width height) = Inr dst"
    and x: "x < width" and y: "y < height" and c: "c < 4"
  shows "dst_width dst = width" and "dst_height dst = height"
    and "dst_data dst ! ((y * width + x) * 4 + c)
         = (if x + 1 < img_width img \<and> y + 1 < img_height img
            then [bilinear img (real x) (real y) 0, bilinear img (real x) (real y) 1,
                  bilinear img (real x) (real y) 2, 255] ! c
            else 0)"
proof -
  show dw: "dst_width dst = width" and dh: "dst_height dst = height"
    using d unfolding rect_warp [OF W H] by auto
  have hm: "getHomographyMatrix (dstPts (dst_width dst) (dst_height dst)) (dstPts width height) = Inr identity_matrix"
    unfolding dw dh by (rule rect_homography [OF W H])
  have x': "x < dst_width dst" and y': "y < dst_height dst" using x y dw dh by simp_all
  show "dst_data dst ! ((y * width + x) * 4 + c)
         = (if x + 1 < img_width img \<and> y + 1 < img_height img
            then [bilinear img (real x) (real y) 0, bilinear img (real x) (real y) 1,
                  bilinear img (real x) (real y) 2, 255] ! c
            else 0)"
    using warp_pixel [OF d hm x' y' c] unfolding dw identity_sampled identity_mapped by simp
qed

lemma sqrt_16: "sqrt 16 = 4"
  by (rule real_sqrt_unique) simp_all

lemma sqrt_4: "sqrt 4 = 2"
  by (rule real_sqrt_unique) simp_all

lemma floor_sqrt_10: "\<lfloor>sqrt 10\<rfloor> = 3"
proof (rule floor_unique)
  show "of_int 3 \<le> sqrt 10" by (rule real_le_rsqrt) simp
  show "sqrt 10 < of_int 3 + 1" by (rule real_less_lsqrt) simp_all
qed

lemma trapezoid_size: "destinationSize trapezoid = (4, 3)"
  by (simp add: destinationSize_def Let_def trapezoid_def sqrt_16 sqrt_4 floor_sqrt_10)

lemma trapezoid_warp: "\<exists>dst. warpPerspective img trapezoid = Inr dst"
proof -
  have nd: "nondegenerate trapezoid"
    by (simp add: nondegenerate_def collinear3_def trapezoid_def)
  have pos: "(0::nat) < 4" "(0::nat) < 3" by simp_all
  obtain x where h: "getHomographyMatrix (dstPts 4 3) trapezoid = Inr (x @ [1])"
    using homography_solution [OF nd pos] by blast
  have l: "\<not> length trapezoid < 4" by (simp add: trapezoid_def)
  show ?thesis
    unfolding warpPerspective_def Let_def trapezoid_size prod.case using l h by simp
qed

subsection \<open>Destination size\<close>

text \<open>
  C3: for every Corner Set in the order TL, TR, BR, BL the destination dimensions that
  \<open>warpPerspective\<close> computes (lines 65 to 72) are the floor of the larger of the distances
  TL to TR and BL to BR, for the width, and the floor of the larger of the distances TL to
  BL and TR to BR, for the height, where the distance is the Euclidean one; neither floor
  is negative; and every destination that \<open>warpPerspective\<close> produces for the Corner Set
  has this width and this height.
\<close>

theorem warpPerspective_size:
  "destinationSize [TL, TR, BR, BL]
     = (nat \<lfloor>max (distance TL TR) (distance BL BR)\<rfloor>, nat \<lfloor>max (distance TL BL) (distance TR BR)\<rfloor>)
   \<and> 0 \<le> \<lfloor>max (distance TL TR) (distance BL BR)\<rfloor>
   \<and> 0 \<le> \<lfloor>max (distance TL BL) (distance TR BR)\<rfloor>
   \<and> (\<forall>img dst. warpPerspective img [TL, TR, BR, BL] = Inr dst \<longrightarrow>
          int (dst_width dst) = \<lfloor>max (distance TL TR) (distance BL BR)\<rfloor>
          \<and> int (dst_height dst) = \<lfloor>max (distance TL BL) (distance TR BR)\<rfloor>)"
proof -
  have size: "destinationSize [TL, TR, BR, BL]
     = (nat \<lfloor>max (distance TL TR) (distance BL BR)\<rfloor>, nat \<lfloor>max (distance TL BL) (distance TR BR)\<rfloor>)"
    by (simp add: destinationSize_def Let_def distance_def power2_commute)
  have nn: "0 \<le> \<lfloor>max (distance p q) (distance r s)\<rfloor>" for p q r s
    by (simp add: distance_def max_def)
  have "int (dst_width dst) = \<lfloor>max (distance TL TR) (distance BL BR)\<rfloor>
          \<and> int (dst_height dst) = \<lfloor>max (distance TL BL) (distance TR BR)\<rfloor>"
    if "warpPerspective img [TL, TR, BR, BL] = Inr dst" for img dst
  proof -
    have "dst_width dst = nat \<lfloor>max (distance TL TR) (distance BL BR)\<rfloor>"
      and "dst_height dst = nat \<lfloor>max (distance TL BL) (distance TR BR)\<rfloor>"
      using warpPerspective_Inr(4) [OF that] unfolding size by simp_all
    then show ?thesis
      using nn [of TL TR BL BR] nn [of TL BL TR BR] by (simp only: int_nat_eq if_True)
  qed
  then show ?thesis using size nn by blast
qed

text \<open>The size of the destination for the trapezoid: 4 by 3.\<close>

theorem warpPerspective_size_witness:
  "\<exists>dst. warpPerspective gradient_3x3 trapezoid = Inr dst \<and> dst_width dst = 4 \<and> dst_height dst = 3"
proof -
  obtain dst where d: "warpPerspective gradient_3x3 trapezoid = Inr dst"
    using trapezoid_warp by blast
  have d': "warpPerspective gradient_3x3
              [\<lparr> px = 0, py = 0 \<rparr>, \<lparr> px = 4, py = 0 \<rparr>, \<lparr> px = 3, py = 3 \<rparr>, \<lparr> px = 1, py = 3 \<rparr>] = Inr dst"
    using d by (simp add: trapezoid_def)
  have "\<forall>img dst. warpPerspective img
              [\<lparr> px = 0, py = 0 \<rparr>, \<lparr> px = 4, py = 0 \<rparr>, \<lparr> px = 3, py = 3 \<rparr>, \<lparr> px = 1, py = 3 \<rparr>] = Inr dst \<longrightarrow>
          int (dst_width dst) = \<lfloor>max (distance \<lparr> px = 0, py = 0 \<rparr> \<lparr> px = 4, py = 0 \<rparr>)
                                      (distance \<lparr> px = 1, py = 3 \<rparr> \<lparr> px = 3, py = 3 \<rparr>)\<rfloor>
          \<and> int (dst_height dst) = \<lfloor>max (distance \<lparr> px = 0, py = 0 \<rparr> \<lparr> px = 1, py = 3 \<rparr>)
                                         (distance \<lparr> px = 4, py = 0 \<rparr> \<lparr> px = 3, py = 3 \<rparr>)\<rfloor>"
    using warpPerspective_size
            [of "\<lparr> px = 0, py = 0 \<rparr>" "\<lparr> px = 4, py = 0 \<rparr>" "\<lparr> px = 3, py = 3 \<rparr>" "\<lparr> px = 1, py = 3 \<rparr>"]
    by blast
  then have "int (dst_width dst) = 4 \<and> int (dst_height dst) = 3"
    using d' by (simp add: distance_def sqrt_16 sqrt_4 floor_sqrt_10)
  then show ?thesis using d by auto
qed

subsection \<open>Pixels out of bounds\<close>

text \<open>
  C4: for every destination pixel \<open>(x, y)\<close> of a warp, with \<open>(u, v, w)\<close> its homogeneous
  source coordinate under the matrix of the warp: if \<open>(u / w, v / w)\<close> lies outside
  \<open>[0, width - 1] \<times> [0, height - 1]\<close> of the source image (or \<open>w\<close> is 0, where the
  quotient is not a number), the four bytes of the pixel are 0; and if the position passes
  the bounds test, so that the pixel is sampled, its alpha byte is 255.
\<close>

theorem out_of_bounds_transparent:
  assumes "warpPerspective img corners = Inr dst"
    and "getHomographyMatrix (dstPts (dst_width dst) (dst_height dst)) corners = Inr h"
    and "x < dst_width dst" and "y < dst_height dst"
    and "mapped h (real x) (real y) = (u, v, w)"
  shows "(w = 0 \<or> u / w < 0 \<or> real (img_width img) - 1 < u / w
            \<or> v / w < 0 \<or> real (img_height img) - 1 < v / w
          \<longrightarrow> (\<forall>c<4. dst_data dst ! ((y * dst_width dst + x) * 4 + c) = 0))
         \<and> (w \<noteq> 0 \<and> 0 \<le> u / w \<and> u / w < real (img_width img) - 1
              \<and> 0 \<le> v / w \<and> v / w < real (img_height img) - 1
            \<longrightarrow> dst_data dst ! ((y * dst_width dst + x) * 4 + 3) = 255)"
proof (intro conjI impI allI)
  fix c :: nat
  assume out: "w = 0 \<or> u / w < 0 \<or> real (img_width img) - 1 < u / w
            \<or> v / w < 0 \<or> real (img_height img) - 1 < v / w" and c: "c < 4"
  have "\<not> sampled img h x y"
    using out assms(5) by (auto simp: sampled_def)
  then show "dst_data dst ! ((y * dst_width dst + x) * 4 + c) = 0"
    using warp_pixel [OF assms(1-4) c] by simp
next
  assume "w \<noteq> 0 \<and> 0 \<le> u / w \<and> u / w < real (img_width img) - 1
              \<and> 0 \<le> v / w \<and> v / w < real (img_height img) - 1"
  then have "sampled img h x y"
    using assms(5) by (simp add: sampled_def)
  then show "dst_data dst ! ((y * dst_width dst + x) * 4 + 3) = 255"
    using warp_pixel [OF assms(1-4), of 3] assms(5) by simp
qed

text \<open>The 3 by 3 image warped to the rectangle of 4 by 4: the destination pixel (3, 3) has
  its source position outside the image and is transparent; the pixel (0, 0) is sampled
  and opaque.\<close>

theorem out_of_bounds_transparent_witness:
  "\<exists>dst. warpPerspective gradient_3x3 (dstPts 4 4) = Inr dst
     \<and> dst_data dst ! 60 = 0 \<and> dst_data dst ! 61 = 0 \<and> dst_data dst ! 62 = 0 \<and> dst_data dst ! 63 = 0
     \<and> dst_data dst ! 3 = 255"
proof -
  have p: "(0::nat) < 4" by simp
  obtain dst where d: "warpPerspective gradient_3x3 (dstPts 4 4) = Inr dst"
    using rect_warp [OF p p] by blast
  have dims: "dst_width dst = 4" "dst_height dst = 4"
    using rect_warp_pixel(1,2) [OF p p d p p p] by simp_all
  have hm: "getHomographyMatrix (dstPts (dst_width dst) (dst_height dst)) (dstPts 4 4) = Inr identity_matrix"
    unfolding dims by (rule rect_homography [OF p p])
  have x3: "(3::nat) < dst_width dst" "(3::nat) < dst_height dst"
    and x0: "(0::nat) < dst_width dst" "(0::nat) < dst_height dst"
    using dims by simp_all
  have far: "\<forall>c<4. dst_data dst ! ((3 * dst_width dst + 3) * 4 + c) = 0"
    using out_of_bounds_transparent [OF d hm x3 identity_mapped]
    by (simp add: gradient_3x3_def)
  have near: "dst_data dst ! ((0 * dst_width dst + 0) * 4 + 3) = 255"
    using out_of_bounds_transparent [OF d hm x0 identity_mapped]
    by (simp add: gradient_3x3_def)
  have c: "(0::nat) < 4" "(1::nat) < 4" "(2::nat) < 4" "(3::nat) < 4" by simp_all
  have "dst_data dst ! 60 = 0" "dst_data dst ! 61 = 0" "dst_data dst ! 62 = 0" "dst_data dst ! 63 = 0"
    using far [rule_format, OF c(1)] far [rule_format, OF c(2)] far [rule_format, OF c(3)]
      far [rule_format, OF c(4)] dims by simp_all
  moreover have "dst_data dst ! 3 = 255" using near by simp
  ultimately show ?thesis using d by blast
qed

subsection \<open>Sampling at integer positions\<close>

lemma bilinear_integer:
  assumes i: "i + 1 < img_width img" and j: "j + 1 < img_height img"
    and len: "length (sData img) = img_width img * img_height img * 4" and c: "c < 4"
  shows "bilinear img (real i) (real j) c = sData img ! ((j * img_width img + i) * 4 + c)"
proof -
  let ?W = "img_width img" and ?H = "img_height img"
  have bound: "(q * ?W + p) * 4 + c < length (sData img)" if "p < ?W" "q < ?H" for p q
  proof -
    have "q * ?W + p < q * ?W + ?W" using that(1) by simp
    also have "\<dots> = Suc q * ?W" by simp
    also have "\<dots> \<le> ?H * ?W" using that(2) by (intro mult_le_mono1) simp
    finally have "(q * ?W + p) * 4 + 4 \<le> ?W * ?H * 4" by (simp add: mult.commute)
    then show ?thesis using c len by simp
  qed
  have r00: "rd (sData img) ((j * ?W + i) * 4 + c) = Some (real (unat (sData img ! ((j * ?W + i) * 4 + c))))"
    using bound [of i j] i j by (simp add: rd_def)
  have r10: "rd (sData img) ((j * ?W + (i + 1)) * 4 + c) \<noteq> None"
    using bound [of "i + 1" j] i j by (simp add: rd_def)
  have r01: "rd (sData img) (((j + 1) * ?W + i) * 4 + c) \<noteq> None"
    using bound [of i "j + 1"] i j by (simp add: rd_def)
  have r11: "rd (sData img) (((j + 1) * ?W + (i + 1)) * 4 + c) \<noteq> None"
    using bound [of "i + 1" "j + 1"] i j by (simp add: rd_def)
  from r10 r01 r11 obtain v10 v01 v11 where
    v: "rd (sData img) ((j * ?W + (i + 1)) * 4 + c) = Some v10"
       "rd (sData img) (((j + 1) * ?W + i) * 4 + c) = Some v01"
       "rd (sData img) (((j + 1) * ?W + (i + 1)) * 4 + c) = Some v11"
    by auto
  show ?thesis
    unfolding bilinear_def Let_def
    by (simp only: floor_of_nat nat_int r00 v option.case prod.case diff_self mult_zero_right
                   diff_zero mult_1_right add_0_right toUint8Clamp_byte)
qed

text \<open>
  C8: for every destination pixel whose source position is the integer position \<open>(i, j)\<close>
  and passes the bounds test (\<open>i < width - 1\<close> and \<open>j < height - 1\<close>), in a source image
  whose buffer has four bytes for each pixel, each of the bytes R, G, B of the destination
  pixel is the byte of the same channel of the source pixel \<open>(i, j)\<close>.
\<close>

theorem integer_position_exact:
  assumes "warpPerspective img corners = Inr dst"
    and "getHomographyMatrix (dstPts (dst_width dst) (dst_height dst)) corners = Inr h"
    and "x < dst_width dst" and "y < dst_height dst"
    and "mapped h (real x) (real y) = (u, v, w)" and "w \<noteq> 0"
    and "u / w = real i" and "v / w = real j"
    and "i + 1 < img_width img" and "j + 1 < img_height img"
    and "length (sData img) = img_width img * img_height img * 4"
    and "c < 3"
  shows "dst_data dst ! ((y * dst_width dst + x) * 4 + c) = sData img ! ((j * img_width img + i) * 4 + c)"
proof -
  have s: "sampled img h x y"
    using assms(5-10) by (simp add: sampled_def)
  have c4: "c < 4" using assms(12) by simp
  have "dst_data dst ! ((y * dst_width dst + x) * 4 + c)
        = [bilinear img (real i) (real j) 0, bilinear img (real i) (real j) 1,
           bilinear img (real i) (real j) 2, 255] ! c"
    using warp_pixel [OF assms(1-4) c4] s assms(5,7,8) by simp
  also have "\<dots> = bilinear img (real i) (real j) c"
  proof -
    have "c = 0 \<or> c = 1 \<or> c = 2" using assms(12) by linarith
    then show ?thesis by auto
  qed
  also have "\<dots> = sData img ! ((j * img_width img + i) * 4 + c)"
    using assms(9-11) c4 by (rule bilinear_integer)
  finally show ?thesis .
qed

text \<open>The same warp: the destination pixel (1, 1), at byte 20, has the bytes of the source
  pixel (1, 1), at byte 16.\<close>

theorem integer_position_exact_witness:
  "\<exists>dst. warpPerspective gradient_3x3 (dstPts 4 4) = Inr dst
     \<and> dst_data dst ! 20 = 16 \<and> dst_data dst ! 21 = 17 \<and> dst_data dst ! 22 = 18"
proof -
  have p: "(0::nat) < 4" by simp
  obtain dst where d: "warpPerspective gradient_3x3 (dstPts 4 4) = Inr dst"
    using rect_warp [OF p p] by blast
  have dims: "dst_width dst = 4" "dst_height dst = 4"
    using rect_warp_pixel(1,2) [OF p p d p p p] by simp_all
  have hm: "getHomographyMatrix (dstPts (dst_width dst) (dst_height dst)) (dstPts 4 4) = Inr identity_matrix"
    unfolding dims by (rule rect_homography [OF p p])
  have x1: "(1::nat) < dst_width dst" "(1::nat) < dst_height dst"
    using dims by simp_all
  have one: "(1::real) \<noteq> 0" and q: "real 1 / 1 = real 1" by simp_all
  have in_w: "1 + 1 < img_width gradient_3x3" and in_h: "1 + 1 < img_height gradient_3x3"
    and len: "length (sData gradient_3x3) = img_width gradient_3x3 * img_height gradient_3x3 * 4"
    by (simp_all add: gradient_3x3_def)
  have px: "dst_data dst ! ((1 * dst_width dst + 1) * 4 + c) = sData gradient_3x3 ! ((1 * img_width gradient_3x3 + 1) * 4 + c)"
    if "c < 3" for c
    using integer_position_exact [OF d hm x1 identity_mapped one q q in_w in_h len that] .
  have c: "(0::nat) < 3" "(1::nat) < 3" "(2::nat) < 3" by simp_all
  have "dst_data dst ! 20 = 16" "dst_data dst ! 21 = 17" "dst_data dst ! 22 = 18"
    using px [OF c(1)] px [OF c(2)] px [OF c(3)] dims by (simp_all add: gradient_3x3_def)
  then show ?thesis using d by blast
qed

subsection \<open>The identity case\<close>

text \<open>
  C2, as stated, fails for the pixels of the last row and the last column: their source
  position has \<open>srcX = width - 1\<close> or \<open>srcY = height - 1\<close> and does not pass the bounds
  test, which keeps one pixel of margin for the interpolation. For the white opaque 2 by 2
  image the output is 2 by 2, and the bytes 12 and 15 of the output (red and alpha of the
  pixel (1, 1)) are 0, while the source has 255 there.
\<close>

theorem last_row_and_column_transparent:
  "map_sum id (\<lambda>dst. (dst_width dst, dst_height dst, dst_data dst ! 12, dst_data dst ! 15))
     (warpPerspective white_2x2 (dstPts (img_width white_2x2) (img_height white_2x2)))
     = Inr (2, 2, 0, 0)
   \<and> sData white_2x2 ! 12 = 255 \<and> sData white_2x2 ! 15 = 255"
proof -
  have p: "(0::nat) < 2" by simp
  obtain dst where d: "warpPerspective white_2x2 (dstPts 2 2) = Inr dst"
    using rect_warp [OF p p] by blast
  have one: "(1::nat) < 2" by simp
  have c0: "(0::nat) < 4" and c3: "(3::nat) < 4" by simp_all
  have "dst_data dst ! ((1 * 2 + 1) * 4 + 0) = 0"
    using rect_warp_pixel(3) [OF p p d one one c0] by (simp add: white_2x2_def)
  moreover have "dst_data dst ! ((1 * 2 + 1) * 4 + 3) = 0"
    using rect_warp_pixel(3) [OF p p d one one c3] by (simp add: white_2x2_def)
  moreover have "dst_width dst = 2" "dst_height dst = 2"
    using rect_warp_pixel(1,2) [OF p p d one one c0] by simp_all
  ultimately show ?thesis
    using d by (simp add: white_2x2_def)
qed

text \<open>
  C2, amended: for the identity case (the four corners are the corners of the source
  image's own rectangle, in order) \<open>warpPerspective\<close> produces an output of the
  dimensions of the source; every destination pixel \<open>(x, y)\<close> with \<open>x < width - 1\<close> and
  \<open>y < height - 1\<close> has the R, G and B bytes of the source pixel \<open>(x, y)\<close> and alpha 255;
  the pixels of the last column and of the last row are transparent black.
\<close>

theorem identity_case_resampling:
  assumes "0 < img_width img" and "0 < img_height img"
    and "length (sData img) = img_width img * img_height img * 4"
  shows "\<exists>dst. warpPerspective img (dstPts (img_width img) (img_height img)) = Inr dst
           \<and> dst_width dst = img_width img \<and> dst_height dst = img_height img
           \<and> (\<forall>x<img_width img. \<forall>y<img_height img.
                 if x + 1 < img_width img \<and> y + 1 < img_height img
                 then (\<forall>c<3. dst_data dst ! ((y * img_width img + x) * 4 + c)
                               = sData img ! ((y * img_width img + x) * 4 + c))
                      \<and> dst_data dst ! ((y * img_width img + x) * 4 + 3) = 255
                 else (\<forall>c<4. dst_data dst ! ((y * img_width img + x) * 4 + c) = 0))"
proof -
  let ?W = "img_width img" and ?H = "img_height img"
  obtain dst where d: "warpPerspective img (dstPts ?W ?H) = Inr dst"
    using rect_warp [OF assms(1,2)] by blast
  have zero: "(0::nat) < 4" by simp
  have "if x + 1 < ?W \<and> y + 1 < ?H
        then (\<forall>c<3. dst_data dst ! ((y * ?W + x) * 4 + c) = sData img ! ((y * ?W + x) * 4 + c))
             \<and> dst_data dst ! ((y * ?W + x) * 4 + 3) = 255
        else (\<forall>c<4. dst_data dst ! ((y * ?W + x) * 4 + c) = 0)"
    if x: "x < ?W" and y: "y < ?H" for x y
  proof (cases "x + 1 < ?W \<and> y + 1 < ?H")
    case True
    have "dst_data dst ! ((y * ?W + x) * 4 + c) = sData img ! ((y * ?W + x) * 4 + c)" if c: "c < 3" for c
    proof -
      have c4: "c < 4" using c by simp
      have "c = 0 \<or> c = 1 \<or> c = 2" using c by linarith
      then have "[bilinear img (real x) (real y) 0, bilinear img (real x) (real y) 1,
                  bilinear img (real x) (real y) 2, 255] ! c = bilinear img (real x) (real y) c"
        by auto
      then show ?thesis
        using rect_warp_pixel(3) [OF assms(1,2) d x y c4] True
          bilinear_integer [of x img y c] assms(3) c4 by simp
    qed
    moreover have "dst_data dst ! ((y * ?W + x) * 4 + 3) = 255"
      using rect_warp_pixel(3) [OF assms(1,2) d x y, of 3] True by simp
    ultimately show ?thesis using True by simp
  next
    case False
    have "dst_data dst ! ((y * ?W + x) * 4 + c) = 0" if "c < 4" for c
      using rect_warp_pixel(3) [OF assms(1,2) d x y that] False by auto
    then show ?thesis using False by simp
  qed
  moreover have "dst_width dst = ?W" "dst_height dst = ?H"
    using rect_warp_pixel(1,2) [OF assms(1,2) d assms(1,2) zero] by simp_all
  ultimately show ?thesis using d by blast
qed

text \<open>The identity case on the 3 by 3 image: the pixel (1, 1) is copied, the pixel (2, 2)
  is transparent.\<close>

theorem identity_case_resampling_witness:
  "\<exists>dst. warpPerspective gradient_3x3 (dstPts 3 3) = Inr dst
     \<and> dst_width dst = 3 \<and> dst_height dst = 3
     \<and> dst_data dst ! 16 = 16 \<and> dst_data dst ! 19 = 255 \<and> dst_data dst ! 32 = 0"
proof -
  have a: "0 < img_width gradient_3x3" "0 < img_height gradient_3x3"
    "length (sData gradient_3x3) = img_width gradient_3x3 * img_height gradient_3x3 * 4"
    by (simp_all add: gradient_3x3_def)
  have dims: "img_width gradient_3x3 = 3" "img_height gradient_3x3 = 3"
    by (simp_all add: gradient_3x3_def)
  from identity_case_resampling [OF a, unfolded dims] obtain dst where
    d: "warpPerspective gradient_3x3 (dstPts 3 3) = Inr dst" "dst_width dst = 3" "dst_height dst = 3"
    and q: "\<forall>x<3. \<forall>y<3.
                 if x + 1 < 3 \<and> y + 1 < 3
                 then (\<forall>c<3. dst_data dst ! ((y * 3 + x) * 4 + c)
                               = sData gradient_3x3 ! ((y * 3 + x) * 4 + c))
                      \<and> dst_data dst ! ((y * 3 + x) * 4 + 3) = 255
                 else (\<forall>c<4. dst_data dst ! ((y * 3 + x) * 4 + c) = 0)"
    by blast
  note p = q [rule_format]
  have one: "(1::nat) < 3" and zero: "(0::nat) < 3" by simp_all
  have s16: "sData gradient_3x3 ! 16 = 16" by (simp add: gradient_3x3_def)
  have "(\<forall>c<3. dst_data dst ! ((1 * 3 + 1) * 4 + c) = sData gradient_3x3 ! ((1 * 3 + 1) * 4 + c))
        \<and> dst_data dst ! ((1 * 3 + 1) * 4 + 3) = 255"
    using p [OF one one] by simp
  then have "dst_data dst ! ((1 * 3 + 1) * 4 + 0) = sData gradient_3x3 ! ((1 * 3 + 1) * 4 + 0)"
    and "dst_data dst ! ((1 * 3 + 1) * 4 + 3) = 255"
    using zero by blast+
  then have "dst_data dst ! 16 = 16" "dst_data dst ! 19 = 255"
    using s16 by simp_all
  moreover have "dst_data dst ! 32 = 0"
  proof -
    have two: "(2::nat) < 3" and z4: "(0::nat) < 4" by simp_all
    have "\<forall>c<4. dst_data dst ! ((2 * 3 + 2) * 4 + c) = 0"
      using p [OF two two] by simp
    then have "dst_data dst ! ((2 * 3 + 2) * 4 + 0) = 0" using z4 by blast
    then show ?thesis by simp
  qed
  ultimately show ?thesis using d by blast
qed

end
